theory Spec2Isabelle
  imports Main
begin

section \<open>Markdown synthesis\<close>

text \<open>
  The exceptions the handlers tell apart: \<open>IOError\<close> (caught by \<open>except IOError\<close>)
  and any other \<open>Exception\<close> (a \<open>TypeError\<close> or \<open>AttributeError\<close> among them).
\<close>

datatype exc = IOError | OtherException

text \<open>
  The OCR response is a duck-typed object. An attribute that the code probes with
  \<open>hasattr\<close> or \<open>getattr\<close> and then uses is absent, present with the value \<open>None\<close>,
  or present with a value of its declared type. For \<open>pages\<close> and \<open>images\<close> the code
  only tests truth, which an absent and a \<open>None\<close>-valued attribute fail alike: there
  \<open>None\<close> stands for both.
\<close>

datatype 'a attr = Absent | PyNone | Val 'a

text \<open>
  \<open>attr_get\<close>: \<open>None\<close> when \<open>hasattr\<close> is false, else the value, \<open>Some None\<close> being
  Python's \<open>None\<close>. \<open>pystr\<close> is how an f-string formats a string or \<open>None\<close>.
\<close>

definition attr_get :: "'a attr \<Rightarrow> 'a option option" where
  "attr_get a = (case a of Absent \<Rightarrow> None | PyNone \<Rightarrow> Some None | Val v \<Rightarrow> Some (Some v))"

definition pystr :: "string option \<Rightarrow> string" where
  "pystr v = (case v of None \<Rightarrow> ''None'' | Some s \<Rightarrow> s)"

record image_obj =
  img_id :: "string attr"
  image_base64 :: "string attr"

record page_obj =
  markdown :: "string attr"
  images :: "image_obj list option"

record ocr_response =
  pages :: "page_obj list option"

text \<open>Python's \<open>s.replace(old, new)\<close>: all non-overlapping occurrences, leftmost first.\<close>

function str_replace :: "string \<Rightarrow> string \<Rightarrow> string \<Rightarrow> string" where
  "str_replace old new [] = (if old = [] then new else [])"
| "str_replace old new (c # cs) =
     (if old = [] then new @ concat (map (\<lambda>x. x # new) (c # cs))
      else if take (length old) (c # cs) = old
        then new @ str_replace old new (drop (length old) (c # cs))
      else c # str_replace old new cs)"
  by pat_completeness auto
termination
  by (relation "measure (\<lambda>(old, new, s). length s)") auto

text \<open>Python's \<open>sep.join(parts)\<close> on strings.\<close>

fun str_join :: "string \<Rightarrow> string list \<Rightarrow> string" where
  "str_join sep [] = []"
| "str_join sep [x] = x"
| "str_join sep (x # y # ys) = x @ sep @ str_join sep (y # ys)"

text \<open>
  \<open>sep.join(parts)\<close> on the list the loop built: an item that is \<open>None\<close> raises a
  \<open>TypeError\<close>.
\<close>

definition py_join :: "string \<Rightarrow> string option list \<Rightarrow> exc + string" where
  "py_join sep parts =
     (case those parts of
        None \<Rightarrow> Inl OtherException
      | Some strs \<Rightarrow> Inr (str_join sep strs))"

text \<open>
  A Python dict keeps insertion order; assigning to an existing key keeps its position
  and replaces its value. A key is a string or \<open>None\<close>.
\<close>

type_synonym image_dict = "(string option \<times> string) list"

fun dict_set :: "image_dict \<Rightarrow> string option \<Rightarrow> string \<Rightarrow> image_dict" where
  "dict_set [] k v = [(k, v)]"
| "dict_set ((k', v') # d) k v = (if k' = k then (k, v) # d else (k', v') # dict_set d k v)"

definition placeholder :: "string \<Rightarrow> string" where
  "placeholder i = ''!['' @ i @ '']('' @ i @ '')''"

definition replacement :: "string \<Rightarrow> string \<Rightarrow> string" where
  "replacement i base64_data_url = ''!['' @ i @ '']('' @ base64_data_url @ '')''"

fun replace_loop :: "string \<Rightarrow> image_dict \<Rightarrow> string" where
  "replace_loop updated_markdown [] = updated_markdown"
| "replace_loop updated_markdown ((i, base64_data_url) # rest) =
     replace_loop
       (str_replace (placeholder (pystr i)) (replacement (pystr i) base64_data_url) updated_markdown)
       rest"

text \<open>
  \<open>replace_images_in_markdown\<close>: with an empty dict the argument is returned as it is;
  otherwise \<open>markdown_str.replace\<close> is called, an \<open>AttributeError\<close> on \<open>None\<close>.
\<close>

definition replace_images_in_markdown :: "string option \<Rightarrow> image_dict \<Rightarrow> exc + string option" where
  "replace_images_in_markdown markdown_str images_dict =
     (if images_dict = [] then Inr markdown_str
      else (case markdown_str of
              None \<Rightarrow> Inl OtherException
            | Some s \<Rightarrow> Inr (Some (replace_loop s images_dict))))"

text \<open>
  The inner loop of the synthesizer: it fills \<open>image_data\<close> from the page's images. An
  image is skipped when \<open>hasattr\<close> fails for \<open>id\<close> or \<open>image_base64\<close>; a value that is
  \<open>None\<close> is used, as key and as the text \<open>None\<close> in the data URL.
\<close>

fun image_loop :: "image_obj list \<Rightarrow> image_dict \<Rightarrow> image_dict" where
  "image_loop [] image_data = image_data"
| "image_loop (img # imgs) image_data =
     (case (attr_get (img_id img), attr_get (image_base64 img)) of
        (Some i, Some b) \<Rightarrow>
          image_loop imgs (dict_set image_data i (''data:image/png;base64,'' @ pystr b))
      | _ \<Rightarrow> image_loop imgs image_data)"

text \<open>
  The body of the loop over the pages: \<open>Inr None\<close> is the \<open>continue\<close> of a page with no
  \<open>markdown\<close> attribute, \<open>Inr (Some v)\<close> appends \<open>v\<close> (a string or \<open>None\<close>) to
  \<open>markdown_parts\<close>, \<open>Inl\<close> is an exception.
\<close>

definition page_part :: "bool \<Rightarrow> page_obj \<Rightarrow> exc + string option option" where
  "page_part include_images page =
     (case attr_get (markdown page) of
        None \<Rightarrow> Inr None
      | Some page_markdown \<Rightarrow>
          (let page_images = (case images page of None \<Rightarrow> [] | Some l \<Rightarrow> l) in
           if include_images \<and> page_images \<noteq> []
           then (case replace_images_in_markdown page_markdown (image_loop page_images []) of
                   Inl e \<Rightarrow> Inl e
                 | Inr v \<Rightarrow> Inr (Some v))
           else Inr (Some page_markdown)))"

fun pages_loop :: "bool \<Rightarrow> page_obj list \<Rightarrow> string option list \<Rightarrow> exc + string option list" where
  "pages_loop include_images [] markdown_parts = Inr markdown_parts"
| "pages_loop include_images (page # rest) markdown_parts =
     (case page_part include_images page of
        Inl e \<Rightarrow> Inl e
      | Inr None \<Rightarrow> pages_loop include_images rest markdown_parts
      | Inr (Some v) \<Rightarrow> pages_loop include_images rest (markdown_parts @ [v]))"

definition page_separator :: string where
  "page_separator = [CHR 0x0A, CHR 0x0A, CHR ''-'', CHR ''-'', CHR ''-'', CHR 0x0A, CHR 0x0A]"

definition generate_markdown_from_response :: "ocr_response \<Rightarrow> bool \<Rightarrow> exc + string" where
  "generate_markdown_from_response ocr_resp include_images =
     (case pages ocr_resp of
        None \<Rightarrow> Inr []
      | Some ps \<Rightarrow>
          if ps = [] then Inr []
          else (case pages_loop include_images ps [] of
                  Inl e \<Rightarrow> Inl e
                | Inr markdown_parts \<Rightarrow> py_join page_separator markdown_parts))"

text \<open>
  Specification vocabulary for placeholder substitution. \<open>occurs old s\<close> holds when
  \<open>old\<close> is a contiguous substring of \<open>s\<close>. A page text is a list of tokens, literal
  stretches and references to images; \<open>render seen\<close> writes a reference to an image of
  \<open>seen\<close> (ids with their data URLs) as the embedded image and any other reference as
  the placeholder.
\<close>

fun occurs :: "string \<Rightarrow> string \<Rightarrow> bool" where
  "occurs old [] = (old = [])"
| "occurs old (c # cs) = (take (length old) (c # cs) = old \<or> occurs old cs)"

datatype token = Lit string | Ref string

fun render_tok :: "(string \<times> string) list \<Rightarrow> token \<Rightarrow> string" where
  "render_tok seen (Lit s) = s"
| "render_tok seen (Ref i) =
     (case map_of seen i of None \<Rightarrow> placeholder i | Some u \<Rightarrow> replacement i u)"

definition render :: "(string \<times> string) list \<Rightarrow> token list \<Rightarrow> string" where
  "render seen toks = concat (map (render_tok seen) toks)"

text \<open>The stretches of tokens between the references to the image \<open>j\<close>.\<close>

fun pieces :: "string \<Rightarrow> token list \<Rightarrow> token list list" where
  "pieces j [] = [[]]"
| "pieces j (t # ts) =
     (if t = Ref j then [] # pieces j ts
      else (case pieces j ts of [] \<Rightarrow> [[t]] | p # ps \<Rightarrow> (t # p) # ps))"

text \<open>
  \<open>stage_ok seen j toks\<close>: when the images of \<open>seen\<close> are substituted, the placeholder
  of \<open>j\<close> occurs in the text only where the tokens refer to \<open>j\<close>: not inside a stretch
  between two such references, not across the end of a stretch into the placeholder that
  follows it. \<open>compatible\<close> asks this at the turn of each image.
\<close>

definition stage_ok :: "(string \<times> string) list \<Rightarrow> string \<Rightarrow> token list \<Rightarrow> bool" where
  "stage_ok seen j toks =
     (let segs = map (render seen) (pieces j toks)
      in list_all (\<lambda>s. \<not> occurs (placeholder j) (s @ butlast (placeholder j))) (butlast segs)
         \<and> \<not> occurs (placeholder j) (last segs))"

fun compatible :: "(string \<times> string) list \<Rightarrow> (string \<times> string) list \<Rightarrow> token list \<Rightarrow> bool" where
  "compatible seen [] toks = True"
| "compatible seen ((j, u) # rest) toks =
     (stage_ok seen j toks \<and> compatible (seen @ [(j, u)]) rest toks)"

text \<open>The image objects and the data URLs of a list of ids with their payloads.\<close>

definition image_objs :: "(string \<times> string) list \<Rightarrow> image_obj list" where
  "image_objs ips = map (\<lambda>(i, b). \<lparr>img_id = Val i, image_base64 = Val b\<rparr>) ips"

definition data_urls :: "(string \<times> string) list \<Rightarrow> (string \<times> string) list" where
  "data_urls ips = map (\<lambda>(i, b). (i, ''data:image/png;base64,'' @ b)) ips"

text \<open>The string a page adds to the output, if it adds one.\<close>

definition part_text :: "bool \<Rightarrow> page_obj \<Rightarrow> string option" where
  "part_text include_images page =
     (case page_part include_images page of
        Inr (Some (Some s)) \<Rightarrow> Some s
      | _ \<Rightarrow> None)"

section \<open>Paths\<close>

text \<open>
  The batch lists the current directory, so a path is a file name. \<open>suffix\<close> and
  \<open>with_suffix\<close> are those of \<open>pathlib\<close>; \<open>lower\<close> folds the ASCII letters.
\<close>

type_synonym path = string

definition lower_char :: "char \<Rightarrow> char" where
  "lower_char c =
     (case map_of (zip ''ABCDEFGHIJKLMNOPQRSTUVWXYZ'' ''abcdefghijklmnopqrstuvwxyz'') c of
        Some l \<Rightarrow> l
      | None \<Rightarrow> c)"

definition lower :: "string \<Rightarrow> string" where
  "lower s = map lower_char s"

definition rfind_dot :: "string \<Rightarrow> nat option" where
  "rfind_dot name =
     (let r = takeWhile (\<lambda>c. c \<noteq> CHR ''.'') (rev name)
      in if length r = length name then None else Some (length name - length r - 1))"

definition suffix :: "path \<Rightarrow> string" where
  "suffix name =
     (case rfind_dot name of
        None \<Rightarrow> []
      | Some i \<Rightarrow> if 0 < i \<and> i < length name - 1 then drop i name else [])"

definition with_suffix :: "path \<Rightarrow> string \<Rightarrow> path" where
  "with_suffix name sfx =
     (let old_suffix = suffix name
      in if old_suffix = [] then name @ sfx
         else take (length name - length old_suffix) name @ sfx)"

definition SUPPORTED_EXTENSIONS :: "string list" where
  "SUPPORTED_EXTENSIONS = [''.pdf'', ''.png'', ''.jpg'', ''.jpeg'', ''.webp'']"

section \<open>The remote service and the operating system\<close>

datatype document = DocumentUrl string | ImageUrl string

text \<open>
  A remote call as the client issues it. \<open>OcrProcess\<close> carries the document and the
  \<open>include_image_base64\<close> argument (absent for an image).
\<close>

datatype call =
    FilesUpload string
  | FilesCreate string
  | GetSignedUrl string
  | OcrProcess document "bool option"
  | FilesDelete string

record signed_url_obj =
  signed_url :: "string attr"
  url :: "string attr"

text \<open>
  The client. What the service answers may depend on every call made before (the first
  argument of each method); \<open>Inl\<close> is an exception raised by the call. An upload that
  answers \<open>Inr fid\<close> returned an object whose \<open>id\<close> is \<open>fid\<close>.
\<close>

record client =
  has_upload :: bool
  has_create :: bool
  files_upload :: "call list \<Rightarrow> string \<Rightarrow> exc + string"
  files_create :: "call list \<Rightarrow> string \<Rightarrow> exc + string"
  files_get_signed_url :: "call list \<Rightarrow> string \<Rightarrow> exc + signed_url_obj"
  ocr_process :: "call list \<Rightarrow> document \<Rightarrow> bool option \<Rightarrow> exc + ocr_response"
  files_delete :: "call list \<Rightarrow> string \<Rightarrow> exc option"

text \<open>
  What the program reads from its surroundings: the credential (after \<open>load_dotenv\<close>),
  the client constructor, the directory listing (\<open>None\<close> is an \<open>OSError\<close>), the script's
  own \<open>__file__\<close> (\<open>None\<close> is the \<open>NameError\<close>), the results of opening, reading and
  writing files, the library functions \<open>mimetypes.guess_type\<close> and
  \<open>base64.b64encode\<close>, and the configuration constant
  \<open>INCLUDE_BASE64_IMAGES_FROM_PDF\<close> (\<open>False\<close> in the source as distributed).
  \<open>Path.exists\<close> and \<open>Path.resolve\<close> are taken to return; interrupts
  (\<open>KeyboardInterrupt\<close>, \<open>SystemExit\<close> raised by a callee) are not modelled.
\<close>

record env =
  api_key :: "string option"
  client_init :: "string \<Rightarrow> exc + client"
  iterdir :: "path list option"
  is_file :: "path \<Rightarrow> bool"
  script_file :: "path option"
  resolve :: "path \<Rightarrow> path"
  open_rb :: "path \<Rightarrow> exc option"
  read_bytes :: "path \<Rightarrow> exc + string"
  open_w :: "path \<Rightarrow> exc option"
  write_text :: "path \<Rightarrow> string \<Rightarrow> exc option"
  guess_type :: "path \<Rightarrow> string option"
  b64encode :: "string \<Rightarrow> string"
  INCLUDE_BASE64_IMAGES_FROM_PDF :: bool

section \<open>The per-file pipelines\<close>

datatype staged = Staged string | StageRaised exc | NoUploadMethod

datatype 'a outcome = Return 'a | Raise exc

text \<open>Step 1 of \<open>process_pdf_file\<close>: open the file and upload it.\<close>

definition pdf_stage :: "env \<Rightarrow> client \<Rightarrow> call list \<Rightarrow> path \<Rightarrow> staged \<times> call list" where
  "pdf_stage os c cs file_path =
     (case open_rb os file_path of
        Some e \<Rightarrow> (StageRaised e, cs)
      | None \<Rightarrow>
          if has_upload c then
            (case files_upload c cs file_path of
               Inl e \<Rightarrow> (StageRaised e, cs @ [FilesUpload file_path])
             | Inr fid \<Rightarrow> (Staged fid, cs @ [FilesUpload file_path]))
          else if has_create c then
            (case files_create c cs file_path of
               Inl e \<Rightarrow> (StageRaised e, cs @ [FilesCreate file_path])
             | Inr fid \<Rightarrow> (Staged fid, cs @ [FilesCreate file_path]))
          else (NoUploadMethod, cs))"

text \<open>
  \<open>getattr(obj, 'signed_url', getattr(obj, 'url', None))\<close>: the value of \<open>signed_url\<close>
  when the attribute is there, also when it is \<open>None\<close>; else that of \<open>url\<close>.
\<close>

definition signed_url_str :: "signed_url_obj \<Rightarrow> string option" where
  "signed_url_str obj =
     (case attr_get (signed_url obj) of
        Some v \<Rightarrow> v
      | None \<Rightarrow> (case attr_get (url obj) of Some v \<Rightarrow> v | None \<Rightarrow> None))"

text \<open>Steps 2 and 3: the signed URL, then the OCR call.\<close>

definition pdf_locate_and_ocr ::
  "client \<Rightarrow> call list \<Rightarrow> string \<Rightarrow> bool \<Rightarrow> ocr_response outcome \<times> call list" where
  "pdf_locate_and_ocr c cs uploaded_file_id include_images =
     (let cs1 = cs @ [GetSignedUrl uploaded_file_id] in
      case files_get_signed_url c cs uploaded_file_id of
        Inl e \<Rightarrow> (Raise e, cs1)
      | Inr obj \<Rightarrow>
          (case signed_url_str obj of
             None \<Rightarrow> (Raise OtherException, cs1)
           | Some s \<Rightarrow>
               if s = [] then (Raise OtherException, cs1)
               else
                 (let doc = DocumentUrl s; cs2 = cs1 @ [OcrProcess doc (Some include_images)] in
                  case ocr_process c cs1 doc (Some include_images) of
                    Inl e \<Rightarrow> (Raise e, cs2)
                  | Inr r \<Rightarrow> (Return r, cs2))))"

text \<open>Step 4, the \<open>finally\<close> block: an exception of the delete call is only logged.\<close>

definition pdf_finally :: "client \<Rightarrow> string option \<Rightarrow> call list \<Rightarrow> call list" where
  "pdf_finally c uploaded_file_id cs =
     (case uploaded_file_id of
        None \<Rightarrow> cs
      | Some fid \<Rightarrow>
          if fid = [] then cs
          else (case files_delete c cs fid of
                  None \<Rightarrow> cs @ [FilesDelete fid]
                | Some e_del \<Rightarrow> cs @ [FilesDelete fid]))"

text \<open>Both handlers (\<open>except IOError\<close>, \<open>except Exception\<close>) return \<open>None\<close>.\<close>

definition handle :: "exc \<Rightarrow> ocr_response option" where
  "handle e = (case e of IOError \<Rightarrow> None | OtherException \<Rightarrow> None)"

definition process_pdf_file ::
  "env \<Rightarrow> client \<Rightarrow> call list \<Rightarrow> path \<Rightarrow> bool \<Rightarrow> ocr_response option \<times> call list" where
  "process_pdf_file os c cs file_path include_images =
     (case pdf_stage os c cs file_path of
        (StageRaised e, cs1) \<Rightarrow> (handle e, pdf_finally c None cs1)
      | (NoUploadMethod, cs1) \<Rightarrow> (None, pdf_finally c None cs1)
      | (Staged fid, cs1) \<Rightarrow>
          (case pdf_locate_and_ocr c cs1 fid include_images of
             (Return pdf_response, cs2) \<Rightarrow> (Some pdf_response, pdf_finally c (Some fid) cs2)
           | (Raise e, cs2) \<Rightarrow> (handle e, pdf_finally c (Some fid) cs2)))"

definition mime_map :: "string \<Rightarrow> string option" where
  "mime_map ext =
     (if ext = ''.png'' then Some ''image/png''
      else if ext = ''.jpg'' then Some ''image/jpeg''
      else if ext = ''.jpeg'' then Some ''image/jpeg''
      else if ext = ''.webp'' then Some ''image/webp''
      else None)"

definition final_mime_type :: "env \<Rightarrow> path \<Rightarrow> string" where
  "final_mime_type os file_path =
     (let fallback = (case mime_map (lower (suffix file_path)) of
                        Some m \<Rightarrow> m
                      | None \<Rightarrow> ''image/jpeg'')
      in case guess_type os file_path of
           None \<Rightarrow> fallback
         | Some m \<Rightarrow> if m = [] then fallback else m)"

definition process_image_file ::
  "env \<Rightarrow> client \<Rightarrow> call list \<Rightarrow> path \<Rightarrow> ocr_response option \<times> call list" where
  "process_image_file os c cs file_path =
     (case read_bytes os file_path of
        Inl e \<Rightarrow> (handle e, cs)
      | Inr image_bytes \<Rightarrow>
          if image_bytes = [] then (None, cs)
          else
            (let encoded_string = b64encode os image_bytes;
                 base64_data_url = ''data:'' @ final_mime_type os file_path @ '';base64,'' @ encoded_string;
                 doc = ImageUrl base64_data_url;
                 cs1 = cs @ [OcrProcess doc None]
             in case ocr_process c cs doc None of
                  Inl e \<Rightarrow> (handle e, cs1)
                | Inr image_response \<Rightarrow> (Some image_response, cs1)))"

section \<open>The batch\<close>

text \<open>
  The state the batch changes: the files that exist with their contents, the remote calls
  issued so far, the output paths opened for writing so far, and the three counters.
\<close>

record state =
  fs :: "path \<rightharpoonup> string"
  calls :: "call list"
  writes :: "path list"
  files_processed :: nat
  files_skipped :: nat
  errors_occurred :: nat

text \<open>
  Writing the Markdown: \<open>open(..., "w")\<close> creates or truncates the file, then the content
  is written. An \<open>IOError\<close> is counted by the inner handler, any other exception by the
  handler around the whole iteration.
\<close>

definition count_error :: "exc \<Rightarrow> state \<Rightarrow> state" where
  "count_error e st =
     (case e of
        IOError \<Rightarrow> st\<lparr>errors_occurred := errors_occurred st + 1\<rparr>
      | OtherException \<Rightarrow> st\<lparr>errors_occurred := errors_occurred st + 1\<rparr>)"

definition write_markdown :: "env \<Rightarrow> path \<Rightarrow> string \<Rightarrow> state \<Rightarrow> state" where
  "write_markdown os output_md_path markdown_content st =
     (case open_w os output_md_path of
        Some e \<Rightarrow> count_error e st
      | None \<Rightarrow>
          (let st1 = st\<lparr>fs := (fs st)(output_md_path \<mapsto> []),
                         writes := writes st @ [output_md_path]\<rparr>
           in case write_text os output_md_path markdown_content of
                Some e \<Rightarrow> count_error e st1
              | None \<Rightarrow> st1\<lparr>fs := (fs st1)(output_md_path \<mapsto> markdown_content),
                            files_processed := files_processed st1 + 1\<rparr>))"

definition is_script_itself :: "env \<Rightarrow> path \<Rightarrow> bool" where
  "is_script_itself os file_path =
     (case script_file os of
        None \<Rightarrow> False
      | Some f \<Rightarrow> resolve os file_path = resolve os f)"

definition dispatch :: "env \<Rightarrow> client \<Rightarrow> call list \<Rightarrow> path \<Rightarrow> ocr_response option \<times> call list" where
  "dispatch os c cs file_path =
     (let file_type = lower (suffix file_path) in
      if file_type = ''.pdf'' then process_pdf_file os c cs file_path (INCLUDE_BASE64_IMAGES_FROM_PDF os)
      else if file_type \<in> set SUPPORTED_EXTENSIONS then process_image_file os c cs file_path
      else (None, cs))"

text \<open>
  One iteration of the loop of \<open>main\<close>. An exception of the synthesis is counted by
  the handler around the iteration, and nothing is written.
\<close>

definition process_file :: "env \<Rightarrow> client \<Rightarrow> path \<Rightarrow> state \<Rightarrow> state" where
  "process_file os c file_path st =
     (let output_md_path = with_suffix file_path ''.md'' in
      if fs st output_md_path \<noteq> None then st\<lparr>files_skipped := files_skipped st + 1\<rparr>
      else if is_script_itself os file_path then st\<lparr>files_skipped := files_skipped st + 1\<rparr>
      else
        (let file_type = lower (suffix file_path) in
         case dispatch os c (calls st) file_path of
           (None, cs) \<Rightarrow> st\<lparr>calls := cs, errors_occurred := errors_occurred st + 1\<rparr>
         | (Some ocr_resp, cs) \<Rightarrow>
             (case generate_markdown_from_response ocr_resp
                     (file_type = ''.pdf'' \<and> INCLUDE_BASE64_IMAGES_FROM_PDF os) of
                Inl e \<Rightarrow> count_error e (st\<lparr>calls := cs\<rparr>)
              | Inr markdown_content \<Rightarrow>
                  write_markdown os output_md_path markdown_content (st\<lparr>calls := cs\<rparr>))))"

fun batch_loop :: "env \<Rightarrow> client \<Rightarrow> path list \<Rightarrow> state \<Rightarrow> state" where
  "batch_loop os c [] st = st"
| "batch_loop os c (file_path # rest) st = batch_loop os c rest (process_file os c file_path st)"

definition files_to_process :: "env \<Rightarrow> path list \<Rightarrow> path list" where
  "files_to_process os all_items =
     filter (\<lambda>item. is_file os item
                   \<and> lower (suffix item) \<in> set SUPPORTED_EXTENSIONS
                   \<and> lower (suffix item) \<noteq> ''.md'') all_items"

text \<open>
  \<open>main\<close> starts from the files that exist, with no call issued and the counters at
  zero, and returns the exit status of the process and the state it leaves.
\<close>

definition initial_state :: "(path \<rightharpoonup> string) \<Rightarrow> state" where
  "initial_state files =
     \<lparr>fs = files, calls = [], writes = [],
      files_processed = 0, files_skipped = 0, errors_occurred = 0\<rparr>"

definition main :: "env \<Rightarrow> (path \<rightharpoonup> string) \<Rightarrow> int \<times> state" where
  "main os files =
     (let st = initial_state files in
      case api_key os of
        None \<Rightarrow> (1, st)
      | Some k \<Rightarrow>
          if k = [] then (1, st)
          else
            (case client_init os k of
               Inl e \<Rightarrow> (1, st)
             | Inr c \<Rightarrow>
                 (case iterdir os of
                    None \<Rightarrow> (1, st)
                  | Some all_items \<Rightarrow>
                      (let files_found = files_to_process os all_items in
                       if files_found = [] then (0, st)
                       else
                         (let st' = batch_loop os c files_found st
                          in (if errors_occurred st' > 0 then 1 else 0, st'))))))"

text \<open>Specification vocabulary: the release calls of a trace.\<close>

fun is_delete :: "call \<Rightarrow> bool" where
  "is_delete (FilesDelete fid) = True"
| "is_delete _ = False"

section \<open>A concrete run\<close>

text \<open>
  A service that stages, locates and recognises one page, and whose delete call fails;
  a directory with a PDF, two images, one of them already converted, and a text file.
\<close>

definition demo_response :: ocr_response where
  "demo_response = \<lparr>pages = Some [\<lparr>markdown = Val ''Hello'', images = None\<rparr>]\<rparr>"

definition demo_client :: client where
  "demo_client =
     \<lparr>has_upload = True, has_create = False,
      files_upload = (\<lambda>cs name. Inr ''file-1''),
      files_create = (\<lambda>cs name. Inl OtherException),
      files_get_signed_url = (\<lambda>cs fid. Inr \<lparr>signed_url = Val ''https://signed'', url = Absent\<rparr>),
      ocr_process = (\<lambda>cs doc inc. Inr demo_response),
      files_delete = (\<lambda>cs fid. Some OtherException)\<rparr>"

definition demo_env :: env where
  "demo_env =
     \<lparr>api_key = Some ''secret'',
      client_init = (\<lambda>k. Inr demo_client),
      iterdir = Some [''a.pdf'', ''b.png'', ''c.png'', ''c.md'', ''notes.txt''],
      is_file = (\<lambda>p. True),
      script_file = Some ''mistral_ocr_script.py'',
      resolve = (\<lambda>p. ''/work/'' @ p),
      open_rb = (\<lambda>p. None),
      read_bytes = (\<lambda>p. Inr ''png''),
      open_w = (\<lambda>p. None),
      write_text = (\<lambda>p s. None),
      guess_type = (\<lambda>p. None),
      b64encode = (\<lambda>s. ''cG5n''),
      INCLUDE_BASE64_IMAGES_FROM_PDF = False\<rparr>"

definition demo_files :: "path \<rightharpoonup> string" where
  "demo_files =
     map_of [(''a.pdf'', ''%PDF''), (''b.png'', ''png''), (''c.png'', ''png''),
             (''c.md'', ''old''), (''notes.txt'', ''note'')]"

section \<open>Properties of the synthesis\<close>

lemma pages_loop_ok:
  "map (page_part inc) ps = map Inr rs \<Longrightarrow>
   pages_loop inc ps acc = Inr (acc @ List.map_filter id rs)"
proof (induction ps arbitrary: acc rs)
  case Nil
  then show ?case by (simp add: List.map_filter_def)
next
  case (Cons p ps)
  then obtain r rs' where rs: "rs = r # rs'" "page_part inc p = Inr r"
    "map (page_part inc) ps = map Inr rs'"
    by (cases rs) auto
  show ?case
    using Cons.IH[OF rs(3)] rs(1,2) by (cases r) (simp_all add: List.map_filter_simps)
qed

lemma those_map_Some: "those (map Some xs) = Some xs"
  by (induction xs) simp_all

lemma map_filter_id_Some: "List.map_filter id (map Some xs) = xs"
  by (induction xs) (simp_all add: List.map_filter_simps)

lemma generate_of_parts:
  assumes "map (page_part inc) ps = map (\<lambda>s. Inr (Some (Some s))) parts"
  shows "generate_markdown_from_response \<lparr>pages = Some ps\<rparr> inc = Inr (str_join page_separator parts)"
proof -
  have m: "map (page_part inc) ps = map Inr (map Some (map Some parts))"
    using assms by (simp add: comp_def)
  have "List.map_filter id (map Some (map Some parts)) = map Some parts"
    by (rule map_filter_id_Some)
  then have "pages_loop inc ps [] = Inr (map Some parts)"
    using pages_loop_ok[OF m, of "[]"] by simp
  then show ?thesis
    by (cases ps)
      (simp_all add: generate_markdown_from_response_def py_join_def those_map_Some
        split: sum.splits option.splits)
qed

lemma page_part_plain:
  "markdown p = Val t \<Longrightarrow> page_part False p = Inr (Some (Some t))"
  by (simp add: page_part_def attr_get_def)

lemma length_str_join:
  "length (str_join sep xs) = sum_list (map length xs) + length sep * (length xs - 1)"
  by (induction sep xs rule: str_join.induct) auto

lemma str_replace_absent:
  "old \<noteq> [] \<Longrightarrow> \<not> occurs old s \<Longrightarrow> str_replace old new s = s"
  by (induction s) auto

lemma str_replace_hit:
  "old \<noteq> [] \<Longrightarrow> str_replace old new (old @ rest) = new @ str_replace old new rest"
  by (cases old) auto

lemma take_butlast_eq:
  assumes "old \<noteq> []"
  shows "take (length old) (s @ old @ rest) = take (length old) (s @ butlast old) \<or> s = []"
proof (cases s)
  case Nil
  then show ?thesis by simp
next
  case (Cons c s')
  have "s @ old @ rest = (s @ butlast old) @ (last old # rest)"
    using assms by simp
  moreover have "length old \<le> length (s @ butlast old)"
    using Cons by simp
  ultimately show ?thesis
    by (metis take_append append.right_neutral diff_is_0_eq take_0)
qed

lemma str_replace_first:
  "old \<noteq> [] \<Longrightarrow> \<not> occurs old (s @ butlast old) \<Longrightarrow>
   str_replace old new (s @ old @ rest) = s @ new @ str_replace old new rest"
proof (induction s)
  case Nil
  then show ?case by (simp add: str_replace_hit)
next
  case (Cons c s)
  have ne: "take (length old) ((c # s) @ butlast old) \<noteq> old"
    and inner: "\<not> occurs old (s @ butlast old)"
    using Cons.prems(2) by auto
  have "take (length old) ((c # s) @ old @ rest) = take (length old) ((c # s) @ butlast old)"
    using take_butlast_eq[OF Cons.prems(1), of "c # s" rest] by simp
  with ne have "take (length old) (c # (s @ old @ rest)) \<noteq> old" by simp
  then show ?case using Cons.IH[OF Cons.prems(1) inner] Cons.prems(1) by simp
qed

lemma str_replace_join:
  "old \<noteq> [] \<Longrightarrow> segs \<noteq> [] \<Longrightarrow>
   \<forall>s \<in> set (butlast segs). \<not> occurs old (s @ butlast old) \<Longrightarrow>
   \<not> occurs old (last segs) \<Longrightarrow>
   str_replace old new (str_join old segs) = str_join new segs"
proof (induction old segs rule: str_join.induct)
  case (1 sep)
  then show ?case by simp
next
  case (2 sep x)
  then show ?case by (simp add: str_replace_absent)
next
  case (3 sep x y ys)
  then show ?case by (simp add: str_replace_first)
qed

lemma placeholder_nonempty: "placeholder i \<noteq> []"
  by (simp add: placeholder_def)

text \<open>
  C3. The synthesized Markdown is the page strings joined with the separator
  \<open>"\n\n---\n\n"\<close>: for pages whose parts are \<open>parts\<close> (the page texts, after the
  substitution of images when it is enabled), for pages whose texts are \<open>ts\<close> when
  embedding is off, and for three pages written out in full.
\<close>

theorem separator_exactness:
  "(map (page_part inc) ps = map (\<lambda>s. Inr (Some (Some s))) parts \<longrightarrow>
      generate_markdown_from_response \<lparr>pages = Some ps\<rparr> inc = Inr (str_join page_separator parts))
   \<and> (map markdown ps = map Val ts \<longrightarrow>
      generate_markdown_from_response \<lparr>pages = Some ps\<rparr> False = Inr (str_join page_separator ts))
   \<and> (markdown p1 = Val t1 \<and> markdown p2 = Val t2 \<and> markdown p3 = Val t3 \<longrightarrow>
      generate_markdown_from_response \<lparr>pages = Some [p1, p2, p3]\<rparr> False =
        Inr (t1 @ [CHR 0x0A, CHR 0x0A, CHR ''-'', CHR ''-'', CHR ''-'', CHR 0x0A, CHR 0x0A]
           @ t2 @ [CHR 0x0A, CHR 0x0A, CHR ''-'', CHR ''-'', CHR ''-'', CHR 0x0A, CHR 0x0A] @ t3))"
proof (intro conjI impI)
  assume "map (page_part inc) ps = map (\<lambda>s. Inr (Some (Some s))) parts"
  then show "generate_markdown_from_response \<lparr>pages = Some ps\<rparr> inc = Inr (str_join page_separator parts)"
    by (rule generate_of_parts)
next
  assume a: "map markdown ps = map Val ts"
  have "map (page_part False) ps = map (\<lambda>s. Inr (Some (Some s))) ts"
    using a by (induction ps arbitrary: ts) (auto simp: page_part_plain)
  then show "generate_markdown_from_response \<lparr>pages = Some ps\<rparr> False = Inr (str_join page_separator ts)"
    by (rule generate_of_parts)
next
  assume "markdown p1 = Val t1 \<and> markdown p2 = Val t2 \<and> markdown p3 = Val t3"
  then have "map (page_part False) [p1, p2, p3] = map (\<lambda>s. Inr (Some (Some s))) [t1, t2, t3]"
    by (simp add: page_part_plain)
  then have "generate_markdown_from_response \<lparr>pages = Some [p1, p2, p3]\<rparr> False
               = Inr (str_join page_separator [t1, t2, t3])"
    by (rule generate_of_parts)
  then show "generate_markdown_from_response \<lparr>pages = Some [p1, p2, p3]\<rparr> False =
        Inr (t1 @ [CHR 0x0A, CHR 0x0A, CHR ''-'', CHR ''-'', CHR ''-'', CHR 0x0A, CHR 0x0A]
           @ t2 @ [CHR 0x0A, CHR 0x0A, CHR ''-'', CHR ''-'', CHR ''-'', CHR 0x0A, CHR 0x0A] @ t3)"
    by (simp add: page_separator_def)
qed

theorem separator_exactness_witness:
  "generate_markdown_from_response
     \<lparr>pages = Some [\<lparr>markdown = Val ''A'', images = None\<rparr>,
                     \<lparr>markdown = Val ''B'', images = None\<rparr>,
                     \<lparr>markdown = Val ''C'', images = None\<rparr>]\<rparr> False =
   Inr (''A'' @ [CHR 0x0A, CHR 0x0A, CHR ''-'', CHR ''-'', CHR ''-'', CHR 0x0A, CHR 0x0A]
     @ ''B'' @ [CHR 0x0A, CHR 0x0A, CHR ''-'', CHR ''-'', CHR ''-'', CHR 0x0A, CHR 0x0A] @ ''C'')"
  using separator_exactness[of False "[]" "[]" "[]"
      "\<lparr>markdown = Val ''A'', images = None\<rparr>" "''A''"
      "\<lparr>markdown = Val ''B'', images = None\<rparr>" "''B''"
      "\<lparr>markdown = Val ''C'', images = None\<rparr>" "''C''"]
  by simp

lemma pieces_nonempty: "pieces j toks \<noteq> []"
  by (induction toks) (auto split: list.splits)

lemma str_join_Nil_Cons: "ps \<noteq> [] \<Longrightarrow> str_join sep ([] # ps) = sep @ str_join sep ps"
  by (cases ps) simp_all

lemma str_join_append_Cons: "str_join sep ((a @ b) # ps) = a @ str_join sep (b # ps)"
  by (cases ps) simp_all

lemma render_Cons: "render seen (t # ts) = render_tok seen t @ render seen ts"
  by (simp add: render_def)

lemma render_as_join:
  assumes "map_of seen j = None"
  shows "render seen toks = str_join (placeholder j) (map (render seen) (pieces j toks))"
proof (induction toks)
  case Nil
  show ?case by (simp add: render_def)
next
  case (Cons t ts)
  show ?case
  proof (cases "t = Ref j")
    case True
    have h: "render seen (t # ts) = placeholder j @ render seen ts"
      using True assms by (simp add: render_Cons)
    have m: "map (render seen) (pieces j (t # ts)) = [] # map (render seen) (pieces j ts)"
      using True by (simp add: render_def)
    have "str_join (placeholder j) ([] # map (render seen) (pieces j ts))
            = placeholder j @ str_join (placeholder j) (map (render seen) (pieces j ts))"
      using pieces_nonempty[of j ts] by (intro str_join_Nil_Cons) simp
    then show ?thesis
      using h m Cons by simp
  next
    case False
    obtain p ps where p: "pieces j ts = p # ps"
      using pieces_nonempty[of j ts] by (cases "pieces j ts") auto
    have "str_join (placeholder j) (map (render seen) ((t # p) # ps))
            = render_tok seen t @ str_join (placeholder j) (map (render seen) (p # ps))"
      using str_join_append_Cons[of "placeholder j" "render_tok seen t" "render seen p"
          "map (render seen) ps"]
      by (simp add: render_Cons)
    then show ?thesis
      using False p Cons by (simp add: render_Cons)
  qed
qed

lemma render_tok_later:
  assumes "t \<noteq> Ref j"
  shows "render_tok (seen @ [(j, u)]) t = render_tok seen t"
proof (cases t)
  case (Lit s)
  then show ?thesis by simp
next
  case (Ref i)
  with assms have "i \<noteq> j" by simp
  then have "map_of (seen @ [(j, u)]) i = map_of seen i"
    by (simp add: map_add_def split: option.splits)
  then show ?thesis using Ref by simp
qed

lemma render_piece_later:
  "Ref j \<notin> set p \<Longrightarrow> render (seen @ [(j, u)]) p = render seen p"
  by (induction p) (auto simp: render_Cons render_tok_later, simp add: render_def)

lemma pieces_free: "p \<in> set (pieces j toks) \<Longrightarrow> Ref j \<notin> set p"
proof (induction toks arbitrary: p)
  case Nil
  then show ?case by simp
next
  case (Cons t ts)
  obtain q qs where q: "pieces j ts = q # qs"
    using pieces_nonempty[of j ts] by (cases "pieces j ts") auto
  show ?case
  proof (cases "t = Ref j")
    case True
    then show ?thesis using Cons by auto
  next
    case False
    then have "p = t # q \<or> p \<in> set qs" using Cons.prems q by simp
    then show ?thesis
    proof
      assume "p = t # q"
      moreover have "Ref j \<notin> set q" using Cons.IH[of q] q by simp
      ultimately show ?thesis using False by auto
    next
      assume "p \<in> set qs"
      then show ?thesis using Cons.IH[of p] q by simp
    qed
  qed
qed

lemma render_later_as_join:
  assumes "map_of seen j = None"
  shows "render (seen @ [(j, u)]) toks
           = str_join (replacement j u) (map (render seen) (pieces j toks))"
proof -
  have j: "map_of (seen @ [(j, u)]) j = Some u"
    using assms by (simp add: map_add_def)
  have "render (seen @ [(j, u)]) toks
          = str_join (replacement j u) (map (render (seen @ [(j, u)])) (pieces j toks))"
  proof (induction toks)
    case Nil
    show ?case by (simp add: render_def)
  next
    case (Cons t ts)
    show ?case
    proof (cases "t = Ref j")
      case True
      have h: "render (seen @ [(j, u)]) (t # ts) = replacement j u @ render (seen @ [(j, u)]) ts"
        using True j by (simp add: render_Cons)
      have m: "map (render (seen @ [(j, u)])) (pieces j (t # ts))
                 = [] # map (render (seen @ [(j, u)])) (pieces j ts)"
        using True by (simp add: render_def)
      have "str_join (replacement j u) ([] # map (render (seen @ [(j, u)])) (pieces j ts))
              = replacement j u
                  @ str_join (replacement j u) (map (render (seen @ [(j, u)])) (pieces j ts))"
        using pieces_nonempty[of j ts] by (intro str_join_Nil_Cons) simp
      then show ?thesis
        using h m Cons by simp
    next
      case False
      obtain p ps where p: "pieces j ts = p # ps"
        using pieces_nonempty[of j ts] by (cases "pieces j ts") auto
      have "str_join (replacement j u) (map (render (seen @ [(j, u)])) ((t # p) # ps))
              = render_tok (seen @ [(j, u)]) t
                  @ str_join (replacement j u) (map (render (seen @ [(j, u)])) (p # ps))"
        using str_join_append_Cons[of "replacement j u" "render_tok (seen @ [(j, u)]) t"
            "render (seen @ [(j, u)]) p" "map (render (seen @ [(j, u)])) ps"]
        by (simp add: render_Cons)
      then show ?thesis
        using False p Cons by (simp add: render_Cons)
    qed
  qed
  moreover have "map (render (seen @ [(j, u)])) (pieces j toks) = map (render seen) (pieces j toks)"
    using pieces_free[of _ j toks] by (simp add: render_piece_later)
  ultimately show ?thesis by simp
qed

text \<open>One turn of the loop over the images does what the tokens say.\<close>

lemma replace_stage:
  assumes "map_of seen j = None" and "stage_ok seen j toks"
  shows "str_replace (placeholder j) (replacement j u) (render seen toks)
           = render (seen @ [(j, u)]) toks"
proof -
  let ?segs = "map (render seen) (pieces j toks)"
  have ne: "?segs \<noteq> []" using pieces_nonempty[of j toks] by simp
  have a: "\<forall>s \<in> set (butlast ?segs). \<not> occurs (placeholder j) (s @ butlast (placeholder j))"
    and b: "\<not> occurs (placeholder j) (last ?segs)"
    using assms(2) by (simp_all add: stage_ok_def Let_def list_all_iff)
  have "str_replace (placeholder j) (replacement j u) (str_join (placeholder j) ?segs)
          = str_join (replacement j u) ?segs"
    using str_replace_join[OF placeholder_nonempty ne a b] .
  then show ?thesis
    using render_as_join[OF assms(1), of toks] render_later_as_join[OF assms(1), of u toks]
    by simp
qed

lemma replace_loop_render:
  "compatible seen (map (\<lambda>(k, u). (pystr k, u)) d) toks \<Longrightarrow>
   distinct (map fst seen @ map (\<lambda>(k, u). pystr k) d) \<Longrightarrow>
   replace_loop (render seen toks) d = render (seen @ map (\<lambda>(k, u). (pystr k, u)) d) toks"
proof (induction d arbitrary: seen)
  case Nil
  show ?case by simp
next
  case (Cons e d)
  obtain k u where e: "e = (k, u)" by (cases e)
  have fresh: "map_of seen (pystr k) = None"
    using Cons.prems(2) e by (simp add: map_of_eq_None_iff)
  have ok: "stage_ok seen (pystr k) toks"
    and rest: "compatible (seen @ [(pystr k, u)]) (map (\<lambda>(k, u). (pystr k, u)) d) toks"
    using Cons.prems(1) e by simp_all
  have dist: "distinct (map fst (seen @ [(pystr k, u)]) @ map (\<lambda>(k, u). pystr k) d)"
    using Cons.prems(2) e by simp
  have "replace_loop (render seen toks) (e # d)
          = replace_loop (render (seen @ [(pystr k, u)]) toks) d"
    using replace_stage[OF fresh ok, of u] e by simp
  also have "\<dots> = render ((seen @ [(pystr k, u)]) @ map (\<lambda>(k, u). (pystr k, u)) d) toks"
    using Cons.IH[OF rest dist] .
  finally show ?case using e by simp
qed

lemma dict_set_fresh: "k \<notin> fst ` set d \<Longrightarrow> dict_set d k v = d @ [(k, v)]"
  by (induction d) auto

lemma image_loop_distinct:
  "distinct (map fst ips) \<Longrightarrow> fst ` set acc \<inter> Some ` fst ` set ips = {} \<Longrightarrow>
   image_loop (image_objs ips) acc
     = acc @ map (\<lambda>(i, b). (Some i, ''data:image/png;base64,'' @ b)) ips"
proof (induction ips arbitrary: acc)
  case Nil
  show ?case by (simp add: image_objs_def)
next
  case (Cons e ips)
  obtain i b where e: "e = (i, b)" by (cases e)
  have fresh: "Some i \<notin> fst ` set acc" using Cons.prems(2) e by auto
  have d: "distinct (map fst ips)" and notin: "i \<notin> fst ` set ips"
    using Cons.prems(1) e by auto
  have disj: "fst ` set (acc @ [(Some i, ''data:image/png;base64,'' @ b)]) \<inter> Some ` fst ` set ips = {}"
    using Cons.prems(2) notin e by auto
  have "image_loop (image_objs (e # ips)) acc
          = image_loop (image_objs ips) (acc @ [(Some i, ''data:image/png;base64,'' @ b)])"
    using e dict_set_fresh[OF fresh] by (simp add: image_objs_def attr_get_def pystr_def)
  then show ?case
    using Cons.IH[OF d disj] e by simp
qed

text \<open>
  C4, as amended. With embedding enabled and images with pairwise different ids, a page
  text whose references are written as placeholders \<open>![i](i)\<close> becomes the text in which
  each reference to one of the images is written \<open>![i](data:image/png;base64,b)\<close>, the
  literal stretches and the references to other ids being kept as they are. This holds
  when, at the turn of each image, its placeholder occurs in the text only at the
  references to it.
\<close>

theorem placeholder_substitution:
  assumes "distinct (map fst ips)" and "compatible [] (data_urls ips) toks"
  shows "page_part True \<lparr>markdown = Val (render [] toks), images = Some (image_objs ips)\<rparr>
           = Inr (Some (Some (render (data_urls ips) toks)))
       \<and> generate_markdown_from_response
           \<lparr>pages = Some [\<lparr>markdown = Val (render [] toks), images = Some (image_objs ips)\<rparr>]\<rparr> True
           = Inr (render (data_urls ips) toks)"
proof -
  let ?d = "map (\<lambda>(i, b). (Some i, ''data:image/png;base64,'' @ b)) ips"
  have dict: "image_loop (image_objs ips) [] = ?d"
    using image_loop_distinct[OF assms(1), of "[]"] by simp
  have fmt: "map (\<lambda>(k, u). (pystr k, u)) ?d = data_urls ips"
    by (simp add: data_urls_def pystr_def comp_def case_prod_beta)
  have keys: "map (\<lambda>(k, u). pystr k) ?d = map fst ips"
    by (simp add: pystr_def comp_def case_prod_beta)
  have c': "compatible [] (map (\<lambda>(k, u). (pystr k, u)) ?d) toks"
    using assms(2) by (simp only: fmt)
  have k': "distinct (map fst ([] :: (string \<times> string) list) @ map (\<lambda>(k, u). pystr k) ?d)"
    using assms(1) by (simp only: keys list.map append_Nil)
  have loop: "replace_loop (render [] toks) ?d = render (data_urls ips) toks"
    using replace_loop_render[OF c' k'] by (simp only: fmt append_Nil)
  have p: "page_part True \<lparr>markdown = Val (render [] toks), images = Some (image_objs ips)\<rparr>
           = Inr (Some (Some (render (data_urls ips) toks)))"
  proof (cases ips)
    case Nil
    then show ?thesis
      by (simp add: page_part_def attr_get_def image_objs_def data_urls_def)
  next
    case (Cons e ips')
    then have "image_objs ips \<noteq> []" and "?d \<noteq> []"
      by (simp_all add: image_objs_def)
    then show ?thesis
      using dict loop
      by (simp add: page_part_def attr_get_def replace_images_in_markdown_def)
  qed
  have "map (page_part True) [\<lparr>markdown = Val (render [] toks), images = Some (image_objs ips)\<rparr>]
          = map (\<lambda>s. Inr (Some (Some s))) [render (data_urls ips) toks]"
    using p by simp
  then have "generate_markdown_from_response
           \<lparr>pages = Some [\<lparr>markdown = Val (render [] toks), images = Some (image_objs ips)\<rparr>]\<rparr> True
           = Inr (str_join page_separator [render (data_urls ips) toks])"
    by (rule generate_of_parts)
  with p show ?thesis by simp
qed

text \<open>
  Two images; the text refers to the first twice and to the second once, and holds
  \<open>![fig1](other)\<close>, which is no placeholder.
\<close>

theorem placeholder_substitution_witness:
  "page_part True
     \<lparr>markdown = Val ''see ![fig1](fig1) and ![fig1](other), ![fig2](fig2)![fig1](fig1)'',
      images = Some [\<lparr>img_id = Val ''fig1'', image_base64 = Val ''QQ==''\<rparr>,
                     \<lparr>img_id = Val ''fig2'', image_base64 = Val ''Qg==''\<rparr>]\<rparr>
   = Inr (Some (Some (''see ![fig1](data:image/png;base64,QQ==) and ![fig1](other), ''
        @ ''![fig2](data:image/png;base64,Qg==)![fig1](data:image/png;base64,QQ==)'')))"
proof -
  let ?ips = "[(''fig1'', ''QQ==''), (''fig2'', ''Qg=='')]"
  let ?toks = "[Lit ''see '', Ref ''fig1'', Lit '' and ![fig1](other), '', Ref ''fig2'', Ref ''fig1'']"
  have d: "distinct (map fst ?ips)" by simp
  have c: "compatible [] (data_urls ?ips) ?toks" by code_simp
  have r0: "render [] ?toks = ''see ![fig1](fig1) and ![fig1](other), ![fig2](fig2)![fig1](fig1)''"
    by code_simp
  have r1: "render (data_urls ?ips) ?toks
              = ''see ![fig1](data:image/png;base64,QQ==) and ![fig1](other), ''
                @ ''![fig2](data:image/png;base64,Qg==)![fig1](data:image/png;base64,QQ==)''"
    by code_simp
  have i: "image_objs ?ips = [\<lparr>img_id = Val ''fig1'', image_base64 = Val ''QQ==''\<rparr>,
                     \<lparr>img_id = Val ''fig2'', image_base64 = Val ''Qg==''\<rparr>]"
    by (simp add: image_objs_def)
  show ?thesis
    using placeholder_substitution[OF d c] unfolding r0 r1 i by simp
qed

text \<open>
  The claim as stated fails when two images of a page share an id (the payload of the
  first is never used), and when a payload holds the placeholder of a later image (the
  text that replaced the first placeholder is changed again).
\<close>

theorem placeholder_substitution_counterexample:
  "page_part True
     \<lparr>markdown = Val ''![fig1](fig1)'',
      images = Some [\<lparr>img_id = Val ''fig1'', image_base64 = Val ''QUE=''\<rparr>,
                     \<lparr>img_id = Val ''fig1'', image_base64 = Val ''QkI=''\<rparr>]\<rparr>
     = Inr (Some (Some ''![fig1](data:image/png;base64,QkI=)''))
   \<and> ''![fig1](data:image/png;base64,QkI=)'' \<noteq> ''![fig1](data:image/png;base64,QUE=)''
   \<and> page_part True
     \<lparr>markdown = Val ''![a](a)'',
      images = Some [\<lparr>img_id = Val ''a'', image_base64 = Val ''![b](b)''\<rparr>,
                     \<lparr>img_id = Val ''b'', image_base64 = Val ''QQ==''\<rparr>]\<rparr>
     = Inr (Some (Some ''![a](data:image/png;base64,![b](data:image/png;base64,QQ==))''))
   \<and> ''![a](data:image/png;base64,![b](data:image/png;base64,QQ==))''
        \<noteq> ''![a](data:image/png;base64,![b](b))''"
  by code_simp

section \<open>Properties of the PDF pipeline\<close>

lemma pdf_stage_calls:
  "\<exists>new. snd (pdf_stage os c cs p) = cs @ new \<and> filter is_delete new = []"
  by (auto simp: pdf_stage_def split: option.splits sum.splits)

lemma pdf_locate_and_ocr_calls:
  "\<exists>new. snd (pdf_locate_and_ocr c cs fid inc) = cs @ new \<and> filter is_delete new = []"
  by (auto simp: pdf_locate_and_ocr_def Let_def split: option.splits sum.splits)

lemma pdf_finally_none: "pdf_finally c None cs = cs"
  by (simp add: pdf_finally_def)

lemma pdf_finally_some:
  "pdf_finally c (Some fid) cs = (if fid = [] then cs else cs @ [FilesDelete fid])"
  by (simp add: pdf_finally_def split: option.splits)

lemma process_pdf_file_unstaged:
  assumes "\<forall>fid. fst (pdf_stage os c cs p) \<noteq> Staged fid"
  shows "process_pdf_file os c cs p inc = (None, snd (pdf_stage os c cs p))"
proof (cases "pdf_stage os c cs p")
  case (Pair r cs1)
  with assms show ?thesis
    by (cases r) (simp_all add: process_pdf_file_def pdf_finally_none handle_def split: exc.splits)
qed

lemma process_pdf_file_staged:
  assumes "pdf_stage os c cs p = (Staged fid, cs1)"
  shows "snd (process_pdf_file os c cs p inc) =
           pdf_finally c (Some fid) (snd (pdf_locate_and_ocr c cs1 fid inc))"
proof (cases "pdf_locate_and_ocr c cs1 fid inc")
  case (Pair r cs2)
  with assms show ?thesis
    by (cases r) (simp_all add: process_pdf_file_def)
qed

text \<open>
  C1, as amended. The calls a PDF run adds to the trace hold exactly one release of the
  staged handle, as their last call, when staging returned a non-empty id, whatever the
  later steps did; they hold no release when staging did not succeed, and none when the
  id is empty (the \<open>finally\<close> block tests \<open>if uploaded_file_id\<close>).
\<close>

theorem release_exactly_once:
  "\<exists>new. snd (process_pdf_file os c cs p inc) = cs @ new \<and>
     (case fst (pdf_stage os c cs p) of
        Staged fid \<Rightarrow>
          if fid = [] then filter is_delete new = []
          else filter is_delete new = [FilesDelete fid] \<and> last new = FilesDelete fid
      | StageRaised e \<Rightarrow> filter is_delete new = []
      | NoUploadMethod \<Rightarrow> filter is_delete new = [])"
proof (cases "pdf_stage os c cs p")
  case (Pair r cs1)
  obtain n1 where n1: "cs1 = cs @ n1" "filter is_delete n1 = []"
    using pdf_stage_calls[of os c cs p] Pair by auto
  show ?thesis
  proof (cases r)
    case (Staged fid)
    obtain n2 where n2: "snd (pdf_locate_and_ocr c cs1 fid inc) = cs1 @ n2" "filter is_delete n2 = []"
      using pdf_locate_and_ocr_calls[of c cs1 fid inc] by auto
    have s: "snd (process_pdf_file os c cs p inc) =
               (if fid = [] then cs @ (n1 @ n2) else cs @ (n1 @ n2 @ [FilesDelete fid]))"
    proof -
      have "snd (process_pdf_file os c cs p inc) = pdf_finally c (Some fid) (cs1 @ n2)"
        using process_pdf_file_staged[of os c cs p fid cs1 inc] Pair Staged n2(1) by simp
      then show ?thesis
        using n1(1) by (simp add: pdf_finally_some)
    qed
    show ?thesis
    proof (cases "fid = []")
      case True
      with s n1 n2 Pair Staged show ?thesis by simp
    next
      case False
      with s have "snd (process_pdf_file os c cs p inc) = cs @ (n1 @ n2 @ [FilesDelete fid])"
        by simp
      moreover have "filter is_delete (n1 @ n2 @ [FilesDelete fid]) = [FilesDelete fid]"
        using n1 n2 by simp
      moreover have "last (n1 @ n2 @ [FilesDelete fid]) = FilesDelete fid"
        by simp
      ultimately show ?thesis using Pair Staged False by (intro exI[of _ "n1 @ n2 @ [FilesDelete fid]"]) simp
    qed
  next
    case (StageRaised e)
    then have "process_pdf_file os c cs p inc = (None, cs1)"
      using process_pdf_file_unstaged[of os c cs p inc] Pair by simp
    with n1 Pair StageRaised show ?thesis by simp
  next
    case NoUploadMethod
    then have "process_pdf_file os c cs p inc = (None, cs1)"
      using process_pdf_file_unstaged[of os c cs p inc] Pair by simp
    with n1 Pair NoUploadMethod show ?thesis by simp
  qed
qed

text \<open>
  A run in which \<open>signed_url\<close> is \<open>None\<close> (so that \<open>url\<close> is not consulted): staged,
  then failed, released once.
\<close>

theorem release_exactly_once_witness:
  "process_pdf_file demo_env
     (demo_client\<lparr>files_get_signed_url := (\<lambda>cs fid. Inr \<lparr>signed_url = PyNone, url = Val ''https://other''\<rparr>)\<rparr>)
     [] ''a.pdf'' False
   = (None, [FilesUpload ''a.pdf'', GetSignedUrl ''file-1'', FilesDelete ''file-1''])"
  using release_exactly_once[of demo_env
     "demo_client\<lparr>files_get_signed_url := (\<lambda>cs fid. Inr \<lparr>signed_url = PyNone, url = Val ''https://other''\<rparr>)\<rparr>"
     "[]" "''a.pdf''" False]
  by (simp add: process_pdf_file_def pdf_stage_def pdf_locate_and_ocr_def pdf_finally_def
      signed_url_str_def attr_get_def handle_def demo_env_def demo_client_def)

text \<open>
  The claim as stated fails when the upload returns an empty id: the run is staged, the
  empty handle is used for the signed URL and the OCR call, and no release is issued.
\<close>

theorem release_exactly_once_counterexample:
  "fst (pdf_stage demo_env (demo_client\<lparr>files_upload := (\<lambda>cs name. Inr [])\<rparr>) [] ''a.pdf'')
     = Staged []
   \<and> process_pdf_file demo_env (demo_client\<lparr>files_upload := (\<lambda>cs name. Inr [])\<rparr>) [] ''a.pdf'' False
     = (Some demo_response,
        [FilesUpload ''a.pdf'', GetSignedUrl [],
         OcrProcess (DocumentUrl ''https://signed'') (Some False)])
   \<and> filter is_delete
        [FilesUpload ''a.pdf'', GetSignedUrl [],
         OcrProcess (DocumentUrl ''https://signed'') (Some False)] = []"
  by (simp add: process_pdf_file_def pdf_stage_def pdf_locate_and_ocr_def pdf_finally_def
      signed_url_str_def attr_get_def demo_env_def demo_client_def)

lemma pdf_stage_delete_indep:
  "pdf_stage os (c\<lparr>files_delete := d\<rparr>) cs p = pdf_stage os c cs p"
  by (simp add: pdf_stage_def split: option.splits sum.splits)

lemma pdf_locate_and_ocr_delete_indep:
  "pdf_locate_and_ocr (c\<lparr>files_delete := d\<rparr>) cs fid inc = pdf_locate_and_ocr c cs fid inc"
  by (simp add: pdf_locate_and_ocr_def Let_def split: option.splits sum.splits)

lemma pdf_finally_delete_indep:
  "pdf_finally (c\<lparr>files_delete := d\<rparr>) u cs = pdf_finally c u cs"
  by (simp add: pdf_finally_def split: option.splits)

lemma process_pdf_file_delete_indep:
  "process_pdf_file os (c\<lparr>files_delete := d\<rparr>) cs p inc = process_pdf_file os c cs p inc"
  by (simp add: process_pdf_file_def pdf_stage_delete_indep pdf_locate_and_ocr_delete_indep
      pdf_finally_delete_indep split: prod.splits staged.splits outcome.splits)

lemma process_image_file_delete_indep:
  "process_image_file os (c\<lparr>files_delete := d\<rparr>) cs p = process_image_file os c cs p"
  by (simp add: process_image_file_def Let_def split: option.splits sum.splits)

lemma process_file_delete_indep:
  "process_file os (c\<lparr>files_delete := d\<rparr>) f st = process_file os c f st"
  by (simp add: process_file_def dispatch_def process_pdf_file_delete_indep
      process_image_file_delete_indep Let_def split: prod.splits option.splits)

lemma batch_loop_delete_indep:
  "batch_loop os (c\<lparr>files_delete := d\<rparr>) files st = batch_loop os c files st"
  by (induction files arbitrary: st) (simp_all add: process_file_delete_indep)

text \<open>
  C8. A failing release does not change the outcome of the run: the OCR result obtained
  before it is returned; and what the delete call answers changes neither the result and
  trace of a PDF run nor the state (counters included) of a batch.
\<close>

theorem release_failure_nonfatal:
  "(pdf_stage os c cs p = (Staged fid, cs1) \<and>
    pdf_locate_and_ocr c cs1 fid inc = (Return r, cs2) \<and>
    files_delete c cs2 fid = Some e_del \<longrightarrow>
      fst (process_pdf_file os c cs p inc) = Some r)
   \<and> process_pdf_file os (c\<lparr>files_delete := d\<rparr>) cs p inc = process_pdf_file os c cs p inc
   \<and> batch_loop os (c\<lparr>files_delete := d\<rparr>) files st = batch_loop os c files st"
proof (intro conjI impI)
  assume "pdf_stage os c cs p = (Staged fid, cs1) \<and>
    pdf_locate_and_ocr c cs1 fid inc = (Return r, cs2) \<and>
    files_delete c cs2 fid = Some e_del"
  then show "fst (process_pdf_file os c cs p inc) = Some r"
    by (simp add: process_pdf_file_def)
qed (rule process_pdf_file_delete_indep, rule batch_loop_delete_indep)

theorem release_failure_nonfatal_witness:
  "files_delete demo_client
      [FilesUpload ''a.pdf'', GetSignedUrl ''file-1'',
       OcrProcess (DocumentUrl ''https://signed'') (Some False)] ''file-1'' = Some OtherException
   \<and> fst (process_pdf_file demo_env demo_client [] ''a.pdf'' False) = Some demo_response
   \<and> batch_loop demo_env (demo_client\<lparr>files_delete := (\<lambda>cs fid. None)\<rparr>) [''a.pdf''] (initial_state demo_files)
     = batch_loop demo_env demo_client [''a.pdf''] (initial_state demo_files)"
  using release_failure_nonfatal[of demo_env demo_client "[]" "''a.pdf''" "''file-1''"
      "[FilesUpload ''a.pdf'']" False demo_response
      "[FilesUpload ''a.pdf'', GetSignedUrl ''file-1'',
        OcrProcess (DocumentUrl ''https://signed'') (Some False)]" OtherException
      "\<lambda>cs fid. None" "[''a.pdf'']" "initial_state demo_files"]
  by (simp add: pdf_stage_def pdf_locate_and_ocr_def signed_url_str_def attr_get_def
      demo_env_def demo_client_def)

section \<open>Properties of the batch\<close>

text \<open>
  C2. A candidate whose output path exists, or which is the script itself, is counted as
  skipped and nothing else changes: the trace of remote calls is the same, and the loop
  goes on with the next candidate.
\<close>

theorem skipped_file_no_remote_call:
  assumes "fs st (with_suffix file_path ''.md'') \<noteq> None \<or> is_script_itself os file_path"
  shows "process_file os c file_path st = st\<lparr>files_skipped := files_skipped st + 1\<rparr>
       \<and> calls (process_file os c file_path st) = calls st
       \<and> batch_loop os c (file_path # rest) st =
           batch_loop os c rest (st\<lparr>files_skipped := files_skipped st + 1\<rparr>)"
proof -
  have "process_file os c file_path st = st\<lparr>files_skipped := files_skipped st + 1\<rparr>"
    using assms by (auto simp: process_file_def Let_def)
  then show ?thesis by simp
qed

theorem skipped_file_no_remote_call_witness:
  "fs (initial_state demo_files) (with_suffix ''c.png'' ''.md'') = Some ''old''
   \<and> process_file demo_env demo_client ''c.png'' (initial_state demo_files)
       = (initial_state demo_files)\<lparr>files_skipped := 1\<rparr>
   \<and> calls (process_file demo_env demo_client ''c.png'' (initial_state demo_files)) = []"
  using skipped_file_no_remote_call[of "initial_state demo_files" "''c.png''" demo_env demo_client "[]"]
  by (simp add: initial_state_def demo_files_def with_suffix_def suffix_def rfind_dot_def)

lemma process_file_dispatched:
  assumes "fs st (with_suffix f ''.md'') = None" and "\<not> is_script_itself os f"
  shows "process_file os c f st =
     (case dispatch os c (calls st) f of
        (None, cs) \<Rightarrow> st\<lparr>calls := cs, errors_occurred := errors_occurred st + 1\<rparr>
      | (Some r, cs) \<Rightarrow>
          (case generate_markdown_from_response r
                  (lower (suffix f) = ''.pdf'' \<and> INCLUDE_BASE64_IMAGES_FROM_PDF os) of
             Inl e \<Rightarrow> count_error e (st\<lparr>calls := cs\<rparr>)
           | Inr content \<Rightarrow> write_markdown os (with_suffix f ''.md'') content (st\<lparr>calls := cs\<rparr>)))"
  using assms by (simp add: process_file_def Let_def split: prod.splits option.splits sum.splits)

lemma count_error_eq: "count_error e st = st\<lparr>errors_occurred := errors_occurred st + 1\<rparr>"
  by (cases e) (simp_all add: count_error_def)

lemma write_markdown_ok:
  assumes "open_w os out = None" and "write_text os out content = None"
  shows "write_markdown os out content st =
           st\<lparr>fs := (fs st)(out \<mapsto> content), writes := writes st @ [out],
              files_processed := files_processed st + 1\<rparr>"
  using assms by (simp add: write_markdown_def Let_def)

lemma write_markdown_counts:
  "(files_processed (write_markdown os out content st) = files_processed st + 1
      \<and> errors_occurred (write_markdown os out content st) = errors_occurred st
    \<or> files_processed (write_markdown os out content st) = files_processed st
      \<and> errors_occurred (write_markdown os out content st) = errors_occurred st + 1)
   \<and> files_skipped (write_markdown os out content st) = files_skipped st"
  by (simp add: write_markdown_def Let_def count_error_eq split: option.splits)

text \<open>The counters after one iteration: exactly one of them is one more.\<close>

lemma process_file_counts:
  "(files_processed (process_file os c f st), files_skipped (process_file os c f st),
    errors_occurred (process_file os c f st))
   \<in> {(files_processed st + 1, files_skipped st, errors_occurred st),
       (files_processed st, files_skipped st + 1, errors_occurred st),
       (files_processed st, files_skipped st, errors_occurred st + 1)}"
proof (cases "fs st (with_suffix f ''.md'') \<noteq> None \<or> is_script_itself os f")
  case True
  then have "process_file os c f st = st\<lparr>files_skipped := files_skipped st + 1\<rparr>"
    by (auto simp: process_file_def Let_def)
  then show ?thesis by simp
next
  case False
  then have d: "process_file os c f st =
     (case dispatch os c (calls st) f of
        (None, cs) \<Rightarrow> st\<lparr>calls := cs, errors_occurred := errors_occurred st + 1\<rparr>
      | (Some r, cs) \<Rightarrow>
          (case generate_markdown_from_response r
                  (lower (suffix f) = ''.pdf'' \<and> INCLUDE_BASE64_IMAGES_FROM_PDF os) of
             Inl e \<Rightarrow> count_error e (st\<lparr>calls := cs\<rparr>)
           | Inr content \<Rightarrow> write_markdown os (with_suffix f ''.md'') content (st\<lparr>calls := cs\<rparr>)))"
    using process_file_dispatched[of st f os c] by simp
  obtain res cs where r: "dispatch os c (calls st) f = (res, cs)"
    by (cases "dispatch os c (calls st) f")
  show ?thesis
  proof (cases res)
    case None
    with d r show ?thesis by simp
  next
    case (Some resp)
    show ?thesis
    proof (cases "generate_markdown_from_response resp
                    (lower (suffix f) = ''.pdf'' \<and> INCLUDE_BASE64_IMAGES_FROM_PDF os)")
      case (Inl e)
      with d r Some show ?thesis by (simp add: count_error_eq)
    next
      case (Inr content)
      with d r Some show ?thesis
        using write_markdown_counts[of os "with_suffix f ''.md''" content "st\<lparr>calls := cs\<rparr>"]
        by auto
    qed
  qed
qed

lemma process_file_sum:
  "files_processed (process_file os c f st) + files_skipped (process_file os c f st)
     + errors_occurred (process_file os c f st)
   = files_processed st + files_skipped st + errors_occurred st + 1"
  using process_file_counts[of os c f st] by auto

lemma batch_loop_sum:
  "files_processed (batch_loop os c files st) + files_skipped (batch_loop os c files st)
     + errors_occurred (batch_loop os c files st)
   = files_processed st + files_skipped st + errors_occurred st + length files"
  by (induction files arbitrary: st) (simp_all add: process_file_sum)

text \<open>
  C6. Every iteration adds one to exactly one of the three counters, so the loop over the
  candidates adds their number to the sum of the counters; a run of \<open>main\<close> that reaches
  the listing ends with the sum equal to the number of candidates.
\<close>

theorem counters_partition:
  "(files_processed (process_file os c f st), files_skipped (process_file os c f st),
    errors_occurred (process_file os c f st))
     \<in> {(files_processed st + 1, files_skipped st, errors_occurred st),
         (files_processed st, files_skipped st + 1, errors_occurred st),
         (files_processed st, files_skipped st, errors_occurred st + 1)}
   \<and> files_processed (batch_loop os c files st) + files_skipped (batch_loop os c files st)
       + errors_occurred (batch_loop os c files st)
     = files_processed st + files_skipped st + errors_occurred st + length files
   \<and> (api_key os = Some k \<and> k \<noteq> [] \<and> client_init os k = Inr c \<and> iterdir os = Some all_items \<longrightarrow>
        files_processed (snd (main os files0)) + files_skipped (snd (main os files0))
          + errors_occurred (snd (main os files0))
        = length (files_to_process os all_items))"
proof (intro conjI impI)
  assume a: "api_key os = Some k \<and> k \<noteq> [] \<and> client_init os k = Inr c \<and> iterdir os = Some all_items"
  show "files_processed (snd (main os files0)) + files_skipped (snd (main os files0))
          + errors_occurred (snd (main os files0))
        = length (files_to_process os all_items)"
  proof (cases "files_to_process os all_items = []")
    case True
    with a show ?thesis by (simp add: main_def initial_state_def)
  next
    case False
    with a have "snd (main os files0) =
        batch_loop os c (files_to_process os all_items) (initial_state files0)"
      by (simp add: main_def Let_def)
    then show ?thesis by (simp add: batch_loop_sum initial_state_def)
  qed
qed (rule process_file_counts, rule batch_loop_sum)

theorem counters_partition_witness:
  "files_processed (snd (main demo_env demo_files)) = 2
   \<and> files_skipped (snd (main demo_env demo_files)) = 1
   \<and> errors_occurred (snd (main demo_env demo_files)) = 0
   \<and> length (files_to_process demo_env [''a.pdf'', ''b.png'', ''c.png'', ''c.md'', ''notes.txt'']) = 3"
proof -
  have m: "files_processed (snd (main demo_env demo_files)) = 2
     \<and> files_skipped (snd (main demo_env demo_files)) = 1"
    by code_simp
  have l: "length (files_to_process demo_env [''a.pdf'', ''b.png'', ''c.png'', ''c.md'', ''notes.txt'']) = 3"
    by code_simp
  have "api_key demo_env = Some ''secret'' \<and> ''secret'' \<noteq> [] \<and> client_init demo_env ''secret'' = Inr demo_client
      \<and> iterdir demo_env = Some [''a.pdf'', ''b.png'', ''c.png'', ''c.md'', ''notes.txt'']"
    by (simp add: demo_env_def)
  then have "files_processed (snd (main demo_env demo_files)) + files_skipped (snd (main demo_env demo_files))
          + errors_occurred (snd (main demo_env demo_files))
        = length (files_to_process demo_env [''a.pdf'', ''b.png'', ''c.png'', ''c.md'', ''notes.txt''])"
    using counters_partition[of demo_env demo_client "''a.pdf''" "initial_state demo_files" "[]"
        "''secret''" "[''a.pdf'', ''b.png'', ''c.png'', ''c.md'', ''notes.txt'']" demo_files]
    by blast
  with m l show ?thesis by simp
qed

text \<open>
  C5. The exit status is 1 when the credential is missing (or empty), when the client
  cannot be constructed, when the directory cannot be listed, and when the loop counted
  an error; it is 0 when no candidate was found and when the loop counted no error.
\<close>

theorem exit_status:
  "(api_key os = None \<or> api_key os = Some [] \<longrightarrow> fst (main os files) = 1)
   \<and> (api_key os = Some k \<and> k \<noteq> [] \<and> client_init os k = Inl e \<longrightarrow> fst (main os files) = 1)
   \<and> (api_key os = Some k \<and> k \<noteq> [] \<and> client_init os k = Inr c \<and> iterdir os = None \<longrightarrow>
        fst (main os files) = 1)
   \<and> (api_key os = Some k \<and> k \<noteq> [] \<and> client_init os k = Inr c \<and> iterdir os = Some all_items \<and>
      files_to_process os all_items = [] \<longrightarrow> fst (main os files) = 0)
   \<and> (api_key os = Some k \<and> k \<noteq> [] \<and> client_init os k = Inr c \<and> iterdir os = Some all_items \<and>
      files_to_process os all_items \<noteq> [] \<longrightarrow>
        fst (main os files) =
          (if errors_occurred (batch_loop os c (files_to_process os all_items) (initial_state files)) = 0
           then 0 else 1))"
  by (auto simp: main_def Let_def)

theorem exit_status_witness:
  "fst (main demo_env demo_files) = 0
   \<and> fst (main (demo_env\<lparr>api_key := None\<rparr>) demo_files) = 1
   \<and> fst (main (demo_env\<lparr>client_init := (\<lambda>k. Inl OtherException)\<rparr>) demo_files) = 1
   \<and> fst (main (demo_env\<lparr>iterdir := None\<rparr>) demo_files) = 1
   \<and> fst (main (demo_env\<lparr>iterdir := Some [''notes.txt'']\<rparr>) demo_files) = 0
   \<and> fst (main (demo_env\<lparr>open_w := (\<lambda>p. Some IOError)\<rparr>) demo_files) = 1"
proof -
  have e0: "errors_occurred (batch_loop demo_env demo_client
              (files_to_process demo_env [''a.pdf'', ''b.png'', ''c.png'', ''c.md'', ''notes.txt''])
              (initial_state demo_files)) = 0"
    by code_simp
  have f: "files_to_process demo_env [''a.pdf'', ''b.png'', ''c.png'', ''c.md'', ''notes.txt''] \<noteq> []"
    by code_simp
  have "fst (main demo_env demo_files) = 0"
    using exit_status[of demo_env demo_files "''secret''" OtherException demo_client
        "[''a.pdf'', ''b.png'', ''c.png'', ''c.md'', ''notes.txt'']"] e0 f
    by (simp add: demo_env_def)
  moreover have "fst (main (demo_env\<lparr>api_key := None\<rparr>) demo_files) = 1"
    by (simp add: main_def)
  moreover have "fst (main (demo_env\<lparr>client_init := (\<lambda>k. Inl OtherException)\<rparr>) demo_files) = 1"
    by (simp add: main_def demo_env_def)
  moreover have "fst (main (demo_env\<lparr>iterdir := None\<rparr>) demo_files) = 1"
    by (simp add: main_def demo_env_def)
  moreover have "fst (main (demo_env\<lparr>iterdir := Some [''notes.txt'']\<rparr>) demo_files) = 0"
    by code_simp
  moreover have "fst (main (demo_env\<lparr>open_w := (\<lambda>p. Some IOError)\<rparr>) demo_files) = 1"
    by code_simp
  ultimately show ?thesis by simp
qed

lemma generate_zero_pages:
  "pages r = None \<or> pages r = Some [] \<Longrightarrow> generate_markdown_from_response r inc = Inr []"
  by (auto simp: generate_markdown_from_response_def)

lemma process_file_written:
  assumes "fs st (with_suffix f ''.md'') = None" and "\<not> is_script_itself os f"
    and "dispatch os c (calls st) f = (Some r, cs)"
    and "generate_markdown_from_response r
           (lower (suffix f) = ''.pdf'' \<and> INCLUDE_BASE64_IMAGES_FROM_PDF os) = Inr content"
    and "open_w os (with_suffix f ''.md'') = None"
    and "write_text os (with_suffix f ''.md'') content = None"
  shows "process_file os c f st =
           st\<lparr>calls := cs, fs := (fs st)(with_suffix f ''.md'' \<mapsto> content),
              writes := writes st @ [with_suffix f ''.md''],
              files_processed := files_processed st + 1\<rparr>"
  using assms process_file_dispatched[of st f os c]
  by (simp add: write_markdown_ok)

text \<open>
  C7. A response with no pages synthesizes to the empty string; for a candidate that is
  dispatched and answered with such a response, an output file that can be written is
  written with empty content, the file counts as processed, and no error is counted.
\<close>

theorem zero_pages_processed:
  assumes "pages r = None \<or> pages r = Some []"
  shows "generate_markdown_from_response r inc = Inr []
    \<and> (fs st (with_suffix f ''.md'') = None \<and> \<not> is_script_itself os f \<and>
       dispatch os c (calls st) f = (Some r, cs) \<and>
       open_w os (with_suffix f ''.md'') = None \<and> write_text os (with_suffix f ''.md'') [] = None \<longrightarrow>
         fs (process_file os c f st) (with_suffix f ''.md'') = Some []
         \<and> writes (process_file os c f st) = writes st @ [with_suffix f ''.md'']
         \<and> files_processed (process_file os c f st) = files_processed st + 1
         \<and> files_skipped (process_file os c f st) = files_skipped st
         \<and> errors_occurred (process_file os c f st) = errors_occurred st)"
proof (intro conjI impI)
  show g: "generate_markdown_from_response r inc = Inr []" for inc
    using assms by (rule generate_zero_pages)
  assume a: "fs st (with_suffix f ''.md'') = None \<and> \<not> is_script_itself os f \<and>
       dispatch os c (calls st) f = (Some r, cs) \<and>
       open_w os (with_suffix f ''.md'') = None \<and> write_text os (with_suffix f ''.md'') [] = None"
  have p: "process_file os c f st =
           st\<lparr>calls := cs, fs := (fs st)(with_suffix f ''.md'' \<mapsto> []),
              writes := writes st @ [with_suffix f ''.md''],
              files_processed := files_processed st + 1\<rparr>"
    using a g process_file_written[of st f os c r cs "[]"] by simp
  show "fs (process_file os c f st) (with_suffix f ''.md'') = Some []"
    and "writes (process_file os c f st) = writes st @ [with_suffix f ''.md'']"
    and "files_processed (process_file os c f st) = files_processed st + 1"
    and "files_skipped (process_file os c f st) = files_skipped st"
    and "errors_occurred (process_file os c f st) = errors_occurred st"
    by (simp_all add: p)
qed

theorem zero_pages_processed_witness:
  "generate_markdown_from_response \<lparr>pages = Some []\<rparr> False = Inr []
   \<and> fs (process_file demo_env (demo_client\<lparr>ocr_process := (\<lambda>cs doc inc. Inr \<lparr>pages = Some []\<rparr>)\<rparr>)
           ''a.pdf'' (initial_state demo_files)) ''a.md'' = Some []
   \<and> files_processed (process_file demo_env (demo_client\<lparr>ocr_process := (\<lambda>cs doc inc. Inr \<lparr>pages = Some []\<rparr>)\<rparr>)
           ''a.pdf'' (initial_state demo_files)) = 1
   \<and> errors_occurred (process_file demo_env (demo_client\<lparr>ocr_process := (\<lambda>cs doc inc. Inr \<lparr>pages = Some []\<rparr>)\<rparr>)
           ''a.pdf'' (initial_state demo_files)) = 0"
proof -
  have s: "with_suffix ''a.pdf'' ''.md'' = ''a.md''"
    by code_simp
  have d: "dispatch demo_env (demo_client\<lparr>ocr_process := (\<lambda>cs doc inc. Inr \<lparr>pages = Some []\<rparr>)\<rparr>)
             (calls (initial_state demo_files)) ''a.pdf''
           = (Some \<lparr>pages = Some []\<rparr>, [FilesUpload ''a.pdf'', GetSignedUrl ''file-1'',
                OcrProcess (DocumentUrl ''https://signed'') (Some False), FilesDelete ''file-1''])"
    by code_simp
  have n: "\<not> is_script_itself demo_env ''a.pdf''"
    by (simp add: is_script_itself_def demo_env_def)
  have e: "fs (initial_state demo_files) ''a.md'' = None"
    by (simp add: initial_state_def demo_files_def)
  have w: "open_w demo_env ''a.md'' = None \<and> write_text demo_env ''a.md'' [] = None"
    by (simp add: demo_env_def)
  show ?thesis
    using zero_pages_processed[of "\<lparr>pages = Some []\<rparr>" False "initial_state demo_files" "''a.pdf''"
        demo_env "demo_client\<lparr>ocr_process := (\<lambda>cs doc inc. Inr \<lparr>pages = Some []\<rparr>)\<rparr>"
        "[FilesUpload ''a.pdf'', GetSignedUrl ''file-1'',
          OcrProcess (DocumentUrl ''https://signed'') (Some False), FilesDelete ''file-1'']"]
      s d n e w
    by (simp add: initial_state_def)
qed

lemma write_markdown_fs:
  "writes (write_markdown os out content st) = writes st
     \<and> fs (write_markdown os out content st) = fs st
   \<or> writes (write_markdown os out content st) = writes st @ [out]
     \<and> (\<exists>v. fs (write_markdown os out content st) = (fs st)(out \<mapsto> v))"
  by (auto simp: write_markdown_def Let_def count_error_eq split: option.splits)

text \<open>
  One iteration either leaves the files alone or opens the candidate's output path,
  which did not exist, and changes that path only.
\<close>

lemma process_file_fs:
  "writes (process_file os c f st) = writes st \<and> fs (process_file os c f st) = fs st
   \<or> fs st (with_suffix f ''.md'') = None
     \<and> writes (process_file os c f st) = writes st @ [with_suffix f ''.md'']
     \<and> (\<exists>v. fs (process_file os c f st) = (fs st)(with_suffix f ''.md'' \<mapsto> v))"
proof (cases "fs st (with_suffix f ''.md'') \<noteq> None \<or> is_script_itself os f")
  case True
  then have "process_file os c f st = st\<lparr>files_skipped := files_skipped st + 1\<rparr>"
    by (auto simp: process_file_def Let_def)
  then show ?thesis by simp
next
  case False
  then have d: "process_file os c f st =
     (case dispatch os c (calls st) f of
        (None, cs) \<Rightarrow> st\<lparr>calls := cs, errors_occurred := errors_occurred st + 1\<rparr>
      | (Some r, cs) \<Rightarrow>
          (case generate_markdown_from_response r
                  (lower (suffix f) = ''.pdf'' \<and> INCLUDE_BASE64_IMAGES_FROM_PDF os) of
             Inl e \<Rightarrow> count_error e (st\<lparr>calls := cs\<rparr>)
           | Inr content \<Rightarrow> write_markdown os (with_suffix f ''.md'') content (st\<lparr>calls := cs\<rparr>)))"
    using process_file_dispatched[of st f os c] by simp
  obtain res cs where r: "dispatch os c (calls st) f = (res, cs)"
    by (cases "dispatch os c (calls st) f")
  show ?thesis
  proof (cases res)
    case None
    with d r show ?thesis by simp
  next
    case (Some resp)
    show ?thesis
    proof (cases "generate_markdown_from_response resp
                    (lower (suffix f) = ''.pdf'' \<and> INCLUDE_BASE64_IMAGES_FROM_PDF os)")
      case (Inl e)
      with d r Some show ?thesis by (simp add: count_error_eq)
    next
      case (Inr content)
      with d r Some False show ?thesis
        using write_markdown_fs[of os "with_suffix f ''.md''" content "st\<lparr>calls := cs\<rparr>"]
        by auto
    qed
  qed
qed

lemma batch_loop_writes:
  "\<exists>new. writes (batch_loop os c files st) = writes st @ new
      \<and> distinct new
      \<and> (\<forall>p \<in> set new. fs st p = None \<and> fs (batch_loop os c files st) p \<noteq> None)
      \<and> set new \<subseteq> (\<lambda>f. with_suffix f ''.md'') ` set files
      \<and> length new \<le> length files
      \<and> (\<forall>p. fs st p \<noteq> None \<longrightarrow> fs (batch_loop os c files st) p = fs st p)"
proof (induction files arbitrary: st)
  case Nil
  show ?case by simp
next
  case (Cons f files)
  let ?st1 = "process_file os c f st"
  let ?out = "with_suffix f ''.md''"
  obtain new where n:
    "writes (batch_loop os c files ?st1) = writes ?st1 @ new" "distinct new"
    "\<forall>p \<in> set new. fs ?st1 p = None \<and> fs (batch_loop os c files ?st1) p \<noteq> None"
    "set new \<subseteq> (\<lambda>f. with_suffix f ''.md'') ` set files" "length new \<le> length files"
    "\<forall>p. fs ?st1 p \<noteq> None \<longrightarrow> fs (batch_loop os c files ?st1) p = fs ?st1 p"
    using Cons.IH[of ?st1] by blast
  from process_file_fs[of os c f st]
  show ?case
  proof
    assume same: "writes ?st1 = writes st \<and> fs ?st1 = fs st"
    have "writes (batch_loop os c (f # files) st) = writes st @ new"
      using n(1) same by simp
    moreover have "\<forall>p \<in> set new. fs st p = None \<and> fs (batch_loop os c (f # files) st) p \<noteq> None"
      using n(3) same by simp
    moreover have "set new \<subseteq> (\<lambda>f. with_suffix f ''.md'') ` set (f # files)"
      using n(4) by auto
    moreover have "length new \<le> length (f # files)"
      using n(5) by simp
    moreover have "\<forall>p. fs st p \<noteq> None \<longrightarrow> fs (batch_loop os c (f # files) st) p = fs st p"
      using n(6) same by simp
    ultimately show ?thesis using n(2) by blast
  next
    assume wr: "fs st ?out = None \<and> writes ?st1 = writes st @ [?out]
                \<and> (\<exists>v. fs ?st1 = (fs st)(?out \<mapsto> v))"
    then obtain v where v: "fs ?st1 = (fs st)(?out \<mapsto> v)" by blast
    have out1: "fs ?st1 ?out \<noteq> None" using v by simp
    have notin: "?out \<notin> set new"
    proof
      assume "?out \<in> set new"
      then have "fs ?st1 ?out = None" using n(3) by simp
      then show False using out1 by simp
    qed
    have outk: "fs (batch_loop os c files ?st1) ?out \<noteq> None"
      using n(6) out1 by simp
    have "writes (batch_loop os c (f # files) st) = writes st @ (?out # new)"
      using n(1) wr by simp
    moreover have "distinct (?out # new)"
      using n(2) notin by simp
    moreover have "\<forall>p \<in> set (?out # new). fs st p = None \<and> fs (batch_loop os c (f # files) st) p \<noteq> None"
    proof
      fix p assume p: "p \<in> set (?out # new)"
      show "fs st p = None \<and> fs (batch_loop os c (f # files) st) p \<noteq> None"
      proof (cases "p = ?out")
        case True
        then show ?thesis using wr outk by simp
      next
        case False
        then have pn: "p \<in> set new" using p by simp
        then have "fs ?st1 p = None" using n(3) by blast
        then have "fs st p = None" using v False by (simp split: if_splits)
        then show ?thesis using n(3) pn by simp
      qed
    qed
    moreover have "set (?out # new) \<subseteq> (\<lambda>f. with_suffix f ''.md'') ` set (f # files)"
      using n(4) by auto
    moreover have "length (?out # new) \<le> length (f # files)"
      using n(5) by simp
    moreover have "\<forall>p. fs st p \<noteq> None \<longrightarrow> fs (batch_loop os c (f # files) st) p = fs st p"
    proof (intro allI impI)
      fix p assume e: "fs st p \<noteq> None"
      then have "p \<noteq> ?out" using wr by auto
      then have "fs ?st1 p = fs st p" using v by simp
      then show "fs (batch_loop os c (f # files) st) p = fs st p"
        using n(6) e by simp
    qed
    ultimately show ?thesis by blast
  qed
qed

text \<open>
  C9. In a batch run the output paths opened for writing are pairwise different, none of
  them existed when the run started, each is the output path of a candidate, and there
  are no more of them than candidates; every file that existed keeps its content; and a
  single iteration opens at most the candidate's own output path, and only if that path
  does not exist at that moment (so not if an earlier iteration created it).
\<close>

theorem no_overwrite:
  "distinct (writes (batch_loop os c files (initial_state files0)))
   \<and> (\<forall>p \<in> set (writes (batch_loop os c files (initial_state files0))). files0 p = None)
   \<and> set (writes (batch_loop os c files (initial_state files0)))
        \<subseteq> (\<lambda>f. with_suffix f ''.md'') ` set files
   \<and> length (writes (batch_loop os c files (initial_state files0))) \<le> length files
   \<and> (\<forall>p. files0 p \<noteq> None \<longrightarrow> fs (batch_loop os c files (initial_state files0)) p = files0 p)
   \<and> (fs st (with_suffix f ''.md'') \<noteq> None \<longrightarrow>
        writes (process_file os c f st) = writes st \<and> fs (process_file os c f st) = fs st)
   \<and> (writes (process_file os c f st) = writes st
        \<or> writes (process_file os c f st) = writes st @ [with_suffix f ''.md''])"
proof -
  obtain new where n:
    "writes (batch_loop os c files (initial_state files0)) = writes (initial_state files0) @ new"
    "distinct new"
    "\<forall>p \<in> set new. fs (initial_state files0) p = None
        \<and> fs (batch_loop os c files (initial_state files0)) p \<noteq> None"
    "set new \<subseteq> (\<lambda>f. with_suffix f ''.md'') ` set files" "length new \<le> length files"
    "\<forall>p. fs (initial_state files0) p \<noteq> None \<longrightarrow>
        fs (batch_loop os c files (initial_state files0)) p = fs (initial_state files0) p"
    using batch_loop_writes[of os c files "initial_state files0"] by blast
  have w: "writes (batch_loop os c files (initial_state files0)) = new"
    using n(1) by (simp add: initial_state_def)
  have i: "fs (initial_state files0) = files0"
    by (simp add: initial_state_def)
  have s1: "fs st (with_suffix f ''.md'') \<noteq> None \<longrightarrow>
        writes (process_file os c f st) = writes st \<and> fs (process_file os c f st) = fs st"
    using process_file_fs[of os c f st] by auto
  have s2: "writes (process_file os c f st) = writes st
        \<or> writes (process_file os c f st) = writes st @ [with_suffix f ''.md'']"
    using process_file_fs[of os c f st] by auto
  show ?thesis
    using n(2-) s1 s2 unfolding w i by blast
qed

text \<open>
  Two candidates with the same output path, \<open>a.pdf\<close> and \<open>a.png\<close>: the first is written,
  the second is skipped; \<open>c.md\<close>, which existed, keeps its content.
\<close>

theorem no_overwrite_witness:
  "writes (batch_loop demo_env demo_client [''a.pdf'', ''a.png'', ''c.png''] (initial_state demo_files))
     = [''a.md'']
   \<and> files_skipped (batch_loop demo_env demo_client [''a.pdf'', ''a.png'', ''c.png'']
        (initial_state demo_files)) = 2
   \<and> demo_files ''a.md'' = None
   \<and> demo_files ''c.md'' = Some ''old''
   \<and> fs (batch_loop demo_env demo_client [''a.pdf'', ''a.png'', ''c.png''] (initial_state demo_files)) ''c.md''
     = Some ''old''"
proof -
  have w: "writes (batch_loop demo_env demo_client [''a.pdf'', ''a.png'', ''c.png''] (initial_state demo_files))
     = [''a.md'']"
    by code_simp
  have k: "files_skipped (batch_loop demo_env demo_client [''a.pdf'', ''a.png'', ''c.png'']
        (initial_state demo_files)) = 2"
    by code_simp
  have d: "demo_files ''a.md'' = None \<and> demo_files ''c.md'' = Some ''old''"
    by (simp add: demo_files_def)
  have "\<forall>p. demo_files p \<noteq> None \<longrightarrow>
     fs (batch_loop demo_env demo_client [''a.pdf'', ''a.png'', ''c.png''] (initial_state demo_files)) p
       = demo_files p"
    using no_overwrite[of demo_env demo_client "[''a.pdf'', ''a.png'', ''c.png'']" demo_files
        "initial_state demo_files" "''c.png''"]
    by blast
  then have "fs (batch_loop demo_env demo_client [''a.pdf'', ''a.png'', ''c.png''] (initial_state demo_files)) ''c.md''
     = Some ''old''"
    using d by simp
  with w k d show ?thesis by simp
qed
lemma page_part_absent: "markdown p = Absent \<Longrightarrow> page_part inc p = Inr None"
  by (simp add: page_part_def attr_get_def)

lemma page_part_text:
  assumes "markdown q \<noteq> PyNone"
  shows "page_part inc q = Inr (map_option Some (part_text inc q))"
proof (cases "markdown q")
  case Absent
  then show ?thesis by (simp add: part_text_def page_part_absent)
next
  case PyNone
  with assms show ?thesis by simp
next
  case (Val t)
  then have "\<exists>s. page_part inc q = Inr (Some (Some s))"
    by (simp add: page_part_def attr_get_def Let_def replace_images_in_markdown_def)
  then obtain s where "page_part inc q = Inr (Some (Some s))" by blast
  then show ?thesis by (simp add: part_text_def)
qed

lemma part_text_None_iff:
  "markdown q \<noteq> PyNone \<Longrightarrow> part_text inc q = None \<longleftrightarrow> markdown q = Absent"
  by (cases "markdown q")
    (auto simp: part_text_def page_part_def attr_get_def Let_def replace_images_in_markdown_def)

lemma pages_loop_append:
  "pages_loop inc (xs @ ys) acc =
     (case pages_loop inc xs acc of Inl e \<Rightarrow> Inl e | Inr acc' \<Rightarrow> pages_loop inc ys acc')"
  by (induction xs arbitrary: acc) (auto split: sum.splits option.splits)

lemma pages_loop_drop:
  assumes "markdown p = Absent"
  shows "pages_loop inc (ps1 @ p # ps2) acc = pages_loop inc (ps1 @ ps2) acc"
  using assms by (simp add: pages_loop_append page_part_absent split: sum.splits)

lemma generate_drop:
  assumes "markdown p = Absent"
  shows "generate_markdown_from_response \<lparr>pages = Some (ps1 @ p # ps2)\<rparr> inc
           = generate_markdown_from_response \<lparr>pages = Some (ps1 @ ps2)\<rparr> inc"
proof (cases "ps1 @ ps2 = []")
  case True
  then show ?thesis
    using assms
    by (simp add: generate_markdown_from_response_def page_part_absent py_join_def)
next
  case False
  then show ?thesis
    using pages_loop_drop[OF assms, of inc ps1 ps2 "[]"]
    by (simp add: generate_markdown_from_response_def py_join_def)
qed

lemma map_filter_id_map_option:
  "List.map_filter id (map (\<lambda>q. map_option Some (f q)) ps) = map Some (List.map_filter f ps)"
  by (induction ps) (auto simp: List.map_filter_simps split: option.splits)

lemma generate_retained:
  assumes "\<forall>q \<in> set ps. markdown q \<noteq> PyNone"
  shows "generate_markdown_from_response \<lparr>pages = Some ps\<rparr> inc
           = Inr (str_join page_separator (List.map_filter (part_text inc) ps))"
proof -
  have "map (page_part inc) ps = map Inr (map (\<lambda>q. map_option Some (part_text inc q)) ps)"
    using assms by (simp add: page_part_text)
  then have "pages_loop inc ps [] = Inr (map Some (List.map_filter (part_text inc) ps))"
    using pages_loop_ok[of inc ps "map (\<lambda>q. map_option Some (part_text inc q)) ps" "[]"]
    by (simp only: map_filter_id_map_option append_Nil)
  then show ?thesis
    by (cases ps)
      (simp_all add: generate_markdown_from_response_def py_join_def those_map_Some
        List.map_filter_simps)
qed

lemma length_retained:
  "\<forall>q \<in> set ps. markdown q \<noteq> PyNone \<Longrightarrow>
   length (List.map_filter (part_text inc) ps) = length (filter (\<lambda>q. markdown q \<noteq> Absent) ps)"
proof (induction ps)
  case Nil
  show ?case by (simp add: List.map_filter_simps)
next
  case (Cons a ps)
  then have a: "markdown a \<noteq> PyNone" and IH: "length (List.map_filter (part_text inc) ps)
      = length (filter (\<lambda>q. markdown q \<noteq> Absent) ps)"
    by simp_all
  show ?case
    using IH part_text_None_iff[OF a, of inc]
    by (cases "part_text inc a") (auto simp: List.map_filter_simps)
qed

lemma map_filter_append:
  "List.map_filter f (xs @ ys) = List.map_filter f xs @ List.map_filter f ys"
  by (simp add: List.map_filter_def)

text \<open>
  A page whose \<open>markdown\<close> attribute is there with the value \<open>None\<close> is another matter:
  the loop appends \<open>None\<close> (or the substitution raises), and the synthesis raises.
\<close>

lemma pages_loop_extends:
  "pages_loop inc ps acc = Inr l \<Longrightarrow> \<exists>x. l = acc @ x"
proof (induction ps arbitrary: acc)
  case Nil
  then show ?case by simp
next
  case (Cons a ps)
  show ?case
  proof (cases "page_part inc a")
    case (Inl e)
    with Cons.prems show ?thesis by simp
  next
    case (Inr r)
    show ?thesis
    proof (cases r)
      case None
      with Inr Cons.prems have "pages_loop inc ps acc = Inr l" by simp
      then show ?thesis by (rule Cons.IH)
    next
      case (Some v)
      with Inr Cons.prems have "pages_loop inc ps (acc @ [v]) = Inr l" by simp
      then obtain x where "l = (acc @ [v]) @ x" using Cons.IH by blast
      then have "l = acc @ (v # x)" by simp
      then show ?thesis by blast
    qed
  qed
qed

lemma none_markdown_raises:
  assumes "markdown p = PyNone"
  shows "\<exists>e. generate_markdown_from_response \<lparr>pages = Some (ps1 @ p # ps2)\<rparr> inc = Inl e"
proof (cases "pages_loop inc (ps1 @ p # ps2) []")
  case (Inl e)
  then show ?thesis by (simp add: generate_markdown_from_response_def)
next
  case (Inr l)
  then obtain acc where acc: "pages_loop inc ps1 [] = Inr acc"
    and rest: "pages_loop inc (p # ps2) acc = Inr l"
    by (auto simp: pages_loop_append split: sum.splits)
  have "page_part inc p = Inr (Some None) \<or> (\<exists>e. page_part inc p = Inl e)"
    using assms
    by (auto simp: page_part_def attr_get_def Let_def replace_images_in_markdown_def)
  then have "pages_loop inc ps2 (acc @ [None]) = Inr l"
    using rest by auto
  then obtain x where "l = (acc @ [None]) @ x"
    using pages_loop_extends by blast
  then have "None \<in> set l" by simp
  then have "those l = None"
    by (induction l) (auto split: option.splits)
  then show ?thesis
    using Inr by (simp add: generate_markdown_from_response_def py_join_def)
qed

text \<open>
  C10. A page with no \<open>markdown\<close> attribute leaves no trace in the output: the response
  synthesizes to what it would without that page. When no other page raises (none has a
  \<open>None\<close> text), that is the join of the parts of the pages that have the attribute,
  whose length is the lengths of these parts plus seven characters for each of them but
  one; and when the output file can be written, it holds that join, the candidate counts
  as processed and no error is counted.
\<close>

theorem page_without_markdown_omitted:
  assumes "markdown p = Absent"
  shows "generate_markdown_from_response \<lparr>pages = Some (ps1 @ p # ps2)\<rparr> inc
           = generate_markdown_from_response \<lparr>pages = Some (ps1 @ ps2)\<rparr> inc
    \<and> ((\<forall>q \<in> set (ps1 @ ps2). markdown q \<noteq> PyNone) \<longrightarrow>
         generate_markdown_from_response \<lparr>pages = Some (ps1 @ p # ps2)\<rparr> inc
           = Inr (str_join page_separator (List.map_filter (part_text inc) (ps1 @ ps2)))
         \<and> length (List.map_filter (part_text inc) (ps1 @ ps2))
           = length (filter (\<lambda>q. markdown q \<noteq> Absent) (ps1 @ p # ps2))
         \<and> length (str_join page_separator (List.map_filter (part_text inc) (ps1 @ ps2)))
           = sum_list (map length (List.map_filter (part_text inc) (ps1 @ ps2)))
             + 7 * (length (filter (\<lambda>q. markdown q \<noteq> Absent) (ps1 @ p # ps2)) - 1))
    \<and> ((\<forall>q \<in> set (ps1 @ ps2). markdown q \<noteq> PyNone) \<and>
       fs st (with_suffix f ''.md'') = None \<and> \<not> is_script_itself os f \<and>
       dispatch os c (calls st) f = (Some \<lparr>pages = Some (ps1 @ p # ps2)\<rparr>, cs) \<and>
       open_w os (with_suffix f ''.md'') = None \<and>
       write_text os (with_suffix f ''.md'')
         (str_join page_separator
            (List.map_filter
               (part_text (lower (suffix f) = ''.pdf'' \<and> INCLUDE_BASE64_IMAGES_FROM_PDF os))
               (ps1 @ ps2))) = None \<longrightarrow>
         fs (process_file os c f st) (with_suffix f ''.md'')
           = Some (str_join page_separator
               (List.map_filter
                  (part_text (lower (suffix f) = ''.pdf'' \<and> INCLUDE_BASE64_IMAGES_FROM_PDF os))
                  (ps1 @ ps2)))
         \<and> files_processed (process_file os c f st) = files_processed st + 1
         \<and> files_skipped (process_file os c f st) = files_skipped st
         \<and> errors_occurred (process_file os c f st) = errors_occurred st)"
proof (intro conjI impI)
  show "generate_markdown_from_response \<lparr>pages = Some (ps1 @ p # ps2)\<rparr> inc
           = generate_markdown_from_response \<lparr>pages = Some (ps1 @ ps2)\<rparr> inc"
    using assms by (rule generate_drop)
next
  assume ok: "\<forall>q \<in> set (ps1 @ ps2). markdown q \<noteq> PyNone"
  show "generate_markdown_from_response \<lparr>pages = Some (ps1 @ p # ps2)\<rparr> inc
           = Inr (str_join page_separator (List.map_filter (part_text inc) (ps1 @ ps2)))"
    using generate_drop[OF assms, of ps1 ps2 inc] generate_retained[OF ok, of inc] by simp
  have "length (filter (\<lambda>q. markdown q \<noteq> Absent) (ps1 @ p # ps2))
          = length (filter (\<lambda>q. markdown q \<noteq> Absent) (ps1 @ ps2))"
    using assms by simp
  then show l: "length (List.map_filter (part_text inc) (ps1 @ ps2))
           = length (filter (\<lambda>q. markdown q \<noteq> Absent) (ps1 @ p # ps2))"
    using length_retained[OF ok, of inc] by simp
  show "length (str_join page_separator (List.map_filter (part_text inc) (ps1 @ ps2)))
           = sum_list (map length (List.map_filter (part_text inc) (ps1 @ ps2)))
             + 7 * (length (filter (\<lambda>q. markdown q \<noteq> Absent) (ps1 @ p # ps2)) - 1)"
    unfolding l[symmetric] by (simp add: length_str_join page_separator_def)
next
  let ?flag = "lower (suffix f) = ''.pdf'' \<and> INCLUDE_BASE64_IMAGES_FROM_PDF os"
  let ?content = "str_join page_separator (List.map_filter (part_text ?flag) (ps1 @ ps2))"
  assume h: "(\<forall>q \<in> set (ps1 @ ps2). markdown q \<noteq> PyNone) \<and>
       fs st (with_suffix f ''.md'') = None \<and> \<not> is_script_itself os f \<and>
       dispatch os c (calls st) f = (Some \<lparr>pages = Some (ps1 @ p # ps2)\<rparr>, cs) \<and>
       open_w os (with_suffix f ''.md'') = None \<and>
       write_text os (with_suffix f ''.md'') ?content = None"
  then have ok: "\<forall>q \<in> set (ps1 @ ps2). markdown q \<noteq> PyNone" by blast
  have g: "generate_markdown_from_response \<lparr>pages = Some (ps1 @ p # ps2)\<rparr> ?flag = Inr ?content"
    using generate_drop[OF assms, of ps1 ps2 ?flag] generate_retained[OF ok, of ?flag] by simp
  have w: "process_file os c f st =
           st\<lparr>calls := cs, fs := (fs st)(with_suffix f ''.md'' \<mapsto> ?content),
              writes := writes st @ [with_suffix f ''.md''],
              files_processed := files_processed st + 1\<rparr>"
    using h g process_file_written[of st f os c "\<lparr>pages = Some (ps1 @ p # ps2)\<rparr>" cs ?content]
    by blast
  show "fs (process_file os c f st) (with_suffix f ''.md'') = Some ?content"
    and "files_processed (process_file os c f st) = files_processed st + 1"
    and "files_skipped (process_file os c f st) = files_skipped st"
    and "errors_occurred (process_file os c f st) = errors_occurred st"
    by (simp_all add: w)
qed

text \<open>Three pages of which the second has no text: two parts, one separator.\<close>

theorem page_without_markdown_omitted_witness:
  "generate_markdown_from_response
     \<lparr>pages = Some [\<lparr>markdown = Val ''A'', images = None\<rparr>,
                     \<lparr>markdown = Absent, images = None\<rparr>,
                     \<lparr>markdown = Val ''B'', images = None\<rparr>]\<rparr> False
     = Inr (''A'' @ [CHR 0x0A, CHR 0x0A, CHR ''-'', CHR ''-'', CHR ''-'', CHR 0x0A, CHR 0x0A] @ ''B'')
   \<and> files_processed (process_file demo_env
        (demo_client\<lparr>ocr_process := (\<lambda>cs doc inc. Inr
           \<lparr>pages = Some [\<lparr>markdown = Val ''A'', images = None\<rparr>,
                           \<lparr>markdown = Absent, images = None\<rparr>,
                           \<lparr>markdown = Val ''B'', images = None\<rparr>]\<rparr>)\<rparr>)
        ''b.png'' (initial_state demo_files)) = 1
   \<and> errors_occurred (process_file demo_env
        (demo_client\<lparr>ocr_process := (\<lambda>cs doc inc. Inr
           \<lparr>pages = Some [\<lparr>markdown = Val ''A'', images = None\<rparr>,
                           \<lparr>markdown = Absent, images = None\<rparr>,
                           \<lparr>markdown = Val ''B'', images = None\<rparr>]\<rparr>)\<rparr>)
        ''b.png'' (initial_state demo_files)) = 0"
proof -
  let ?r = "\<lparr>pages = Some [\<lparr>markdown = Val ''A'', images = None\<rparr>,
                     \<lparr>markdown = Absent, images = None\<rparr>,
                     \<lparr>markdown = Val ''B'', images = None\<rparr>]\<rparr>"
  let ?c = "demo_client\<lparr>ocr_process := (\<lambda>cs doc inc. Inr ?r)\<rparr>"
  have s: "with_suffix ''b.png'' ''.md'' = ''b.md''"
    by code_simp
  have d: "dispatch demo_env ?c (calls (initial_state demo_files)) ''b.png''
           = (Some ?r, [OcrProcess (ImageUrl ''data:image/png;base64,cG5n'') None])"
    by code_simp
  have n: "\<not> is_script_itself demo_env ''b.png''"
    by (simp add: is_script_itself_def demo_env_def)
  have e: "fs (initial_state demo_files) ''b.md'' = None"
    by (simp add: initial_state_def demo_files_def)
  have w: "open_w demo_env ''b.md'' = None \<and> (\<forall>t. write_text demo_env ''b.md'' t = None)"
    by (simp add: demo_env_def)
  have m: "markdown \<lparr>markdown = Absent, images = None\<rparr> = Absent"
    by simp
  have g: "generate_markdown_from_response
             \<lparr>pages = Some [\<lparr>markdown = Val ''A'', images = None\<rparr>,
                             \<lparr>markdown = Val ''B'', images = None\<rparr>]\<rparr> False
           = Inr (''A'' @ [CHR 0x0A, CHR 0x0A, CHR ''-'', CHR ''-'', CHR ''-'', CHR 0x0A, CHR 0x0A] @ ''B'')"
    by (simp add: generate_markdown_from_response_def page_part_def attr_get_def py_join_def
        page_separator_def)
  show ?thesis
    using page_without_markdown_omitted[OF m, of "[\<lparr>markdown = Val ''A'', images = None\<rparr>]"
        "[\<lparr>markdown = Val ''B'', images = None\<rparr>]" False "initial_state demo_files" "''b.png''"
        demo_env ?c "[OcrProcess (ImageUrl ''data:image/png;base64,cG5n'') None]"]
      s d n e w g
    by (simp add: initial_state_def)
qed

end
